theory Spec2Isabelle
  imports Main "HOL-Library.Sublist" "HOL-Library.Word"
begin

section \<open>JavaScript values and the builtins the service calls\<close>

text \<open>
  The stream decoder of the class \<^verbatim>\<open>AIService\<close> (services/aiService.js; the line
  numbers below are the lines of that file) works on JavaScript strings and on the
  values \<^verbatim>\<open>JSON.parse\<close> returns. A string is a list of code units; the code units
  of the model are those below 256 (\<open>char\<close>). A chunk of the stream is a Buffer, a
  list of bytes. A parsed value is a \<open>json\<close> tree; an object keeps its properties
  in enumeration order, one entry per key. A number is kept as the literal it was
  read from: what JavaScript does with a number (truth value, conversion to a
  string, comparison with zero) is a builtin of the runtime. \<open>undefined\<close> is
  \<open>None\<close> of \<open>json option\<close>.
\<close>

type_synonym byte = "8 word"

datatype json =
    JNull
  | JBool bool
  | JNum string
  | JStr string
  | JArr "json list"
  | JObj "(string \<times> json) list"

text \<open>
  The builtins are not code of the repository, so the model takes them as a
  parameter: \<open>JSON_parse\<close> is \<^verbatim>\<open>JSON.parse\<close> (\<open>None\<close> when it throws a SyntaxError),
  \<open>Number_truthy\<close> is ToBoolean on a number, \<open>Number_toString\<close> is ToString on a
  number, \<open>gt_zero v\<close> is the comparison \<^verbatim>\<open>v > 0\<close>, and \<open>Buffer_toString\<close> is
  \<^verbatim>\<open>chunk.toString()\<close> on a Buffer: the text its bytes decode to as UTF-8.
\<close>

record runtime =
  JSON_parse :: "string \<Rightarrow> json option"
  Number_truthy :: "string \<Rightarrow> bool"
  Number_toString :: "string \<Rightarrow> string"
  gt_zero :: "json \<Rightarrow> bool"
  Buffer_toString :: "byte list \<Rightarrow> string"

datatype js_error =
    SyntaxError
  | TypeError
  | ReferenceError
  | Error string

definition dquote :: char where
  "dquote = CHR 0x22"

definition backslash :: char where
  "backslash = CHR 0x5C"

text \<open>ToBoolean: \<^verbatim>\<open>if (v)\<close>, \<^verbatim>\<open>a && b\<close>, \<^verbatim>\<open>a || b\<close>.\<close>

definition truthy :: "runtime \<Rightarrow> json \<Rightarrow> bool" where
  "truthy rt v =
     (case v of
        JNull \<Rightarrow> False
      | JBool b \<Rightarrow> b
      | JNum n \<Rightarrow> Number_truthy rt n
      | JStr s \<Rightarrow> s \<noteq> []
      | JArr xs \<Rightarrow> True
      | JObj kvs \<Rightarrow> True)"

definition truthy_opt :: "runtime \<Rightarrow> json option \<Rightarrow> bool" where
  "truthy_opt rt v = (case v of None \<Rightarrow> False | Some j \<Rightarrow> truthy rt j)"

text \<open>
  A property read \<^verbatim>\<open>v.k\<close> for the names the service reads (candidates, content,
  parts, text, inlineData, data, mimeType, promptFeedback, blockReason): an object
  gives its entry or \<open>undefined\<close>; a boolean, number, string or array has no such
  property. \<open>get\<close> adds the TypeError of reading a property of \<^verbatim>\<open>null\<close>.
\<close>

definition get_v :: "json \<Rightarrow> string \<Rightarrow> json option" where
  "get_v v k = (case v of JObj kvs \<Rightarrow> map_of kvs k | _ \<Rightarrow> None)"

definition get :: "json \<Rightarrow> string \<Rightarrow> js_error + json option" where
  "get v k = (if v = JNull then Inl TypeError else Inr (get_v v k))"

text \<open>
  \<^verbatim>\<open>for (const x of v)\<close>: an array gives its elements, a string its characters;
  any other value is not iterable (TypeError).
\<close>

definition iterate :: "json \<Rightarrow> js_error + json list" where
  "iterate v =
     (case v of
        JArr xs \<Rightarrow> Inr xs
      | JStr s \<Rightarrow> Inr (map (\<lambda>c. JStr [c]) s)
      | _ \<Rightarrow> Inl TypeError)"

text \<open>\<^verbatim>\<open>v.length > 0\<close> for a truthy \<open>v\<close>.\<close>

definition length_gt0 :: "runtime \<Rightarrow> json \<Rightarrow> bool" where
  "length_gt0 rt v =
     (case v of
        JArr xs \<Rightarrow> xs \<noteq> []
      | JStr s \<Rightarrow> s \<noteq> []
      | JObj kvs \<Rightarrow> (case map_of kvs ''length'' of None \<Rightarrow> False | Some l \<Rightarrow> gt_zero rt l)
      | _ \<Rightarrow> False)"

text \<open>
  ToString, as \<^verbatim>\<open>+=\<close> on a string and a template literal apply it: an array joins
  its elements with commas (\<^verbatim>\<open>null\<close> as the empty string), an object prints as
  \<^verbatim>\<open>[object Object]\<close>.
\<close>

fun join :: "string \<Rightarrow> string list \<Rightarrow> string" where
  "join sep [] = []"
| "join sep [x] = x"
| "join sep (x # y # ys) = x @ sep @ join sep (y # ys)"

fun ToString :: "runtime \<Rightarrow> json \<Rightarrow> string" where
  "ToString rt JNull = ''null''"
| "ToString rt (JBool b) = (if b then ''true'' else ''false'')"
| "ToString rt (JNum n) = Number_toString rt n"
| "ToString rt (JStr s) = s"
| "ToString rt (JArr xs) = join '','' (map (\<lambda>x. if x = JNull then [] else ToString rt x) xs)"
| "ToString rt (JObj kvs) = ''[object Object]''"

section \<open>The brace scanner of processStreamBuffer\<close>

text \<open>\<^verbatim>\<open>buffer.indexOf(c)\<close>; \<open>None\<close> is \<^verbatim>\<open>-1\<close>.\<close>

fun indexOf :: "char \<Rightarrow> string \<Rightarrow> nat option" where
  "indexOf c [] = None"
| "indexOf c (x # xs) = (if x = c then Some 0 else map_option Suc (indexOf c xs))"

text \<open>
  The \<^verbatim>\<open>for\<close> loop of processStreamBuffer (lines 194-223) from index \<open>i\<close> on, over the
  characters not yet read, with the loop's variables \<open>braceCount\<close>, \<open>inString\<close> and
  \<open>escapeNext\<close>. The result is \<open>endIndex\<close> (\<open>None\<close> for \<^verbatim>\<open>-1\<close>).
\<close>

fun scan :: "int \<Rightarrow> bool \<Rightarrow> bool \<Rightarrow> nat \<Rightarrow> string \<Rightarrow> nat option" where
  "scan braceCount inString escapeNext i [] = None"
| "scan braceCount inString escapeNext i (c # cs) =
     (if escapeNext then scan braceCount inString False (Suc i) cs
      else if c = backslash then scan braceCount inString True (Suc i) cs
      else if c = dquote \<and> \<not> escapeNext then scan braceCount (\<not> inString) escapeNext (Suc i) cs
      else if inString then scan braceCount inString escapeNext (Suc i) cs
      else if c = CHR ''{'' then scan (braceCount + 1) inString escapeNext (Suc i) cs
      else if c = CHR ''}'' then
        (if braceCount - 1 = 0 then Some i
         else scan (braceCount - 1) inString escapeNext (Suc i) cs)
      else scan braceCount inString escapeNext (Suc i) cs)"

text \<open>\<^verbatim>\<open>buffer.substring(a, b)\<close> for \<open>a \<le> b\<close>.\<close>

definition substring :: "string \<Rightarrow> nat \<Rightarrow> nat \<Rightarrow> string" where
  "substring s a b = take (b - a) (drop a s)"

section \<open>Content extraction\<close>

record imageData =
  data :: json
  mimeType :: json

record content =
  content_text :: string
  content_imageData :: "imageData option"

text \<open>The body of the loop over \<^verbatim>\<open>candidate.content.parts\<close> (lines 312-321).\<close>

definition extract_part :: "runtime \<Rightarrow> content \<Rightarrow> json \<Rightarrow> js_error + content" where
  "extract_part rt result part =
     (case get part ''text'' of
        Inl e \<Rightarrow> Inl e
      | Inr t \<Rightarrow>
          if truthy_opt rt t
          then Inr (result\<lparr>content_text :=
                  content_text result @ (case t of None \<Rightarrow> [] | Some tv \<Rightarrow> ToString rt tv)\<rparr>)
          else
            (case get_v part ''inlineData'' of
               None \<Rightarrow> Inr result
             | Some inlineData \<Rightarrow>
                 if truthy rt inlineData \<and> truthy_opt rt (get_v inlineData ''data'')
                 then
                   (case get_v inlineData ''data'' of
                      None \<Rightarrow> Inr result
                    | Some d \<Rightarrow>
                        Inr (result\<lparr>content_imageData := Some
                          \<lparr>data = d,
                           mimeType =
                             (if truthy_opt rt (get_v inlineData ''mimeType'')
                              then (case get_v inlineData ''mimeType'' of
                                      None \<Rightarrow> JStr ''image/png'' | Some m \<Rightarrow> m)
                              else JStr ''image/png'')\<rparr>\<rparr>))
                 else Inr result))"

fun extract_parts :: "runtime \<Rightarrow> content \<Rightarrow> json list \<Rightarrow> js_error + content" where
  "extract_parts rt result [] = Inr result"
| "extract_parts rt result (part # parts) =
     (case extract_part rt result part of
        Inl e \<Rightarrow> Inl e
      | Inr result' \<Rightarrow> extract_parts rt result' parts)"

text \<open>The body of the loop over \<^verbatim>\<open>jsonData.candidates\<close> (lines 310-323).\<close>

definition extract_candidate :: "runtime \<Rightarrow> content \<Rightarrow> json \<Rightarrow> js_error + content" where
  "extract_candidate rt result candidate =
     (case get candidate ''content'' of
        Inl e \<Rightarrow> Inl e
      | Inr None \<Rightarrow> Inr result
      | Inr (Some c) \<Rightarrow>
          if truthy rt c \<and> truthy_opt rt (get_v c ''parts'')
          then
            (case get_v c ''parts'' of
               None \<Rightarrow> Inr result
             | Some parts \<Rightarrow>
                 (case iterate parts of
                    Inl e \<Rightarrow> Inl e
                  | Inr ps \<Rightarrow> extract_parts rt result ps))
          else Inr result)"

fun extract_candidates :: "runtime \<Rightarrow> content \<Rightarrow> json list \<Rightarrow> js_error + content" where
  "extract_candidates rt result [] = Inr result"
| "extract_candidates rt result (candidate # candidates) =
     (case extract_candidate rt result candidate of
        Inl e \<Rightarrow> Inl e
      | Inr result' \<Rightarrow> extract_candidates rt result' candidates)"

text \<open>
  extractContentFromJSON (lines 305-332). The \<^verbatim>\<open>throw\<close> of line 328 is the result
  \<open>Inl (Error msg)\<close>; a TypeError of a property read or of a loop over a value that
  is not iterable is \<open>Inl TypeError\<close>.
\<close>

definition extractContentFromJSON :: "runtime \<Rightarrow> json \<Rightarrow> js_error + content" where
  "extractContentFromJSON rt jsonData =
     (case get jsonData ''candidates'' of
        Inl e \<Rightarrow> Inl e
      | Inr candidates \<Rightarrow>
          (case
             (case candidates of
                None \<Rightarrow> Inr \<lparr>content_text = [], content_imageData = None\<rparr>
              | Some cands \<Rightarrow>
                  if truthy rt cands \<and> length_gt0 rt cands
                  then
                    (case iterate cands of
                       Inl e \<Rightarrow> Inl e
                     | Inr cs \<Rightarrow>
                         extract_candidates rt \<lparr>content_text = [], content_imageData = None\<rparr> cs)
                  else Inr \<lparr>content_text = [], content_imageData = None\<rparr>)
           of
             Inl e \<Rightarrow> Inl e
           | Inr result \<Rightarrow>
               (case get_v jsonData ''promptFeedback'' of
                  None \<Rightarrow> Inr result
                | Some promptFeedback \<Rightarrow>
                    if truthy rt promptFeedback
                       \<and> truthy_opt rt (get_v promptFeedback ''blockReason'')
                    then
                      (case get_v promptFeedback ''blockReason'' of
                         None \<Rightarrow> Inr result
                       | Some blockReason \<Rightarrow>
                           Inl (Error (''Request blocked: '' @ ToString rt blockReason)))
                    else Inr result)))"

section \<open>processStreamBuffer\<close>

text \<open>
  The result of processStreamBuffer: the returned object \<^verbatim>\<open>{text, remainingBuffer}\<close>
  (the field \<^verbatim>\<open>text\<close> under the name of the variable that holds it), and what the
  call did besides: \<open>imageTask\<close> is the argument of the call of handleImageData that
  was started and not awaited, \<open>warned\<close> the \<^verbatim>\<open>console.warn\<close> of the catch branch, and
  \<open>surfaced\<close> the parsed object whose processing ran to the end of the try block.
\<close>

record stream_result =
  extractedText :: string
  remainingBuffer :: string
  imageTask :: "imageData option"
  surfaced :: "json option"
  warned :: bool

definition unchanged :: "string \<Rightarrow> bool \<Rightarrow> stream_result" where
  "unchanged buffer w =
     \<lparr>extractedText = [], remainingBuffer = buffer, imageTask = None,
      surfaced = None, warned = w\<rparr>"

definition find_end :: "string \<Rightarrow> nat \<Rightarrow> nat option" where
  "find_end buffer startIndex = scan 0 False False startIndex (drop startIndex buffer)"

definition processStreamBuffer :: "runtime \<Rightarrow> string \<Rightarrow> stream_result" where
  "processStreamBuffer rt buffer =
     (case indexOf CHR ''{'' buffer of
        None \<Rightarrow> unchanged buffer False
      | Some startIndex \<Rightarrow>
          (case find_end buffer startIndex of
             None \<Rightarrow> unchanged buffer False
           | Some endIndex \<Rightarrow>
               (case JSON_parse rt (substring buffer startIndex (endIndex + 1)) of
                  None \<Rightarrow> unchanged buffer True
                | Some jsonData \<Rightarrow>
                    (case extractContentFromJSON rt jsonData of
                       Inl e \<Rightarrow> unchanged buffer True
                     | Inr processed \<Rightarrow>
                         \<lparr>extractedText =
                            (if content_text processed \<noteq> [] then content_text processed else []),
                          remainingBuffer = drop (endIndex + 1) buffer,
                          imageTask = content_imageData processed,
                          surfaced = Some jsonData,
                          warned = False\<rparr>))))"

text \<open>\<^verbatim>\<open>s.trim()\<close> on the code units below 256: TAB, LF, VT, FF, CR, space, NBSP.\<close>

definition is_space :: "char \<Rightarrow> bool" where
  "is_space c = (c \<in> set [CHR 0x09, CHR 0x0A, CHR 0x0B, CHR 0x0C, CHR 0x0D, CHR 0x20, CHR 0xA0])"

definition trim :: "string \<Rightarrow> string" where
  "trim s = rev (dropWhile is_space (rev (dropWhile is_space s)))"

section \<open>A reader for JSON texts and a decoder of Buffers\<close>

text \<open>
  The theorems about the decoder hold for every \<open>runtime\<close>. To run the decoder on
  a concrete input, \<open>JSON_read\<close> reads a JSON text by the grammar of ECMA-404 as
  \<^verbatim>\<open>JSON.parse\<close> does: white space is space, TAB, LF and CR; a string has no raw
  control character and only the escapes of the grammar; a number has no leading
  zero; nothing but white space follows the value. A repeated key keeps its first
  place and its last value, and keys that are array indices come first in ascending
  order, as the properties of a JavaScript object are enumerated. An escape
  \<^verbatim>\<open>\uXXXX\<close> above \<^verbatim>\<open>\u00FF\<close> is outside the code units of the model and is not read.
  The recursion is bounded by twice the number of characters plus two: a step
  either reads a character or hands over to a step that reads one.
\<close>

definition is_ws :: "char \<Rightarrow> bool" where
  "is_ws c = (c \<in> set [CHR 0x20, CHR 0x09, CHR 0x0A, CHR 0x0D])"

definition skip_ws :: "string \<Rightarrow> string" where
  "skip_ws s = dropWhile is_ws s"

definition is_digit :: "char \<Rightarrow> bool" where
  "is_digit c = (c \<in> set ''0123456789'')"

definition hex_val :: "char \<Rightarrow> nat option" where
  "hex_val c = map_of (zip ''0123456789abcdefABCDEF'' ([0..<16] @ [10..<16])) c"

definition unescape :: "char \<Rightarrow> char option" where
  "unescape c =
     map_of [(dquote, dquote), (backslash, backslash), (CHR ''/'', CHR ''/''),
             (CHR ''b'', CHR 0x08), (CHR ''f'', CHR 0x0C), (CHR ''n'', CHR 0x0A),
             (CHR ''r'', CHR 0x0D), (CHR ''t'', CHR 0x09)] c"

text \<open>The characters of a string after its opening quote, up to the closing one.\<close>

fun read_chars :: "string \<Rightarrow> string \<Rightarrow> (string \<times> string) option" where
  "read_chars acc [] = None"
| "read_chars acc (c # cs) =
     (if c = dquote then Some (rev acc, cs)
      else if c = backslash then
        (case cs of
           [] \<Rightarrow> None
         | e # r \<Rightarrow>
             if e = CHR ''u'' then
               (case r of
                  h1 # h2 # h3 # h4 # r' \<Rightarrow>
                    (case (hex_val h1, hex_val h2, hex_val h3, hex_val h4) of
                       (Some a, Some b, Some c', Some d) \<Rightarrow>
                         if a = 0 \<and> b = 0 then read_chars (char_of (16 * c' + d) # acc) r'
                         else None
                     | _ \<Rightarrow> None)
                | _ \<Rightarrow> None)
             else
               (case unescape e of
                  None \<Rightarrow> None
                | Some x \<Rightarrow> read_chars (x # acc) r))
      else if of_char c < (0x20 :: nat) then None
      else read_chars (c # acc) cs)"

definition read_digits :: "string \<Rightarrow> (string \<times> string) option" where
  "read_digits s =
     (if takeWhile is_digit s = [] then None
      else Some (takeWhile is_digit s, dropWhile is_digit s))"

definition read_sign :: "string \<Rightarrow> string \<Rightarrow> string \<times> string" where
  "read_sign signs s =
     (case s of
        [] \<Rightarrow> ([], s)
      | c # r \<Rightarrow> if c \<in> set signs then ([c], r) else ([], s))"

definition read_fraction :: "string \<Rightarrow> (string \<times> string) option" where
  "read_fraction s =
     (case s of
        [] \<Rightarrow> Some ([], s)
      | c # r \<Rightarrow>
          if c = CHR ''.'' then
            (case read_digits r of None \<Rightarrow> None | Some (fs, s') \<Rightarrow> Some (c # fs, s'))
          else Some ([], s))"

definition read_exponent :: "string \<Rightarrow> (string \<times> string) option" where
  "read_exponent s =
     (case s of
        [] \<Rightarrow> Some ([], s)
      | c # r \<Rightarrow>
          if c = CHR ''e'' \<or> c = CHR ''E'' then
            (case read_digits (snd (read_sign ''+-'' r)) of
               None \<Rightarrow> None
             | Some (xs, s') \<Rightarrow> Some (c # fst (read_sign ''+-'' r) @ xs, s'))
          else Some ([], s))"

definition read_number :: "string \<Rightarrow> (string \<times> string) option" where
  "read_number s =
     (case read_digits (snd (read_sign ''-'' s)) of
        None \<Rightarrow> None
      | Some (ds, s1) \<Rightarrow>
          if hd ds = CHR ''0'' \<and> length ds > 1 then None
          else
            (case read_fraction s1 of
               None \<Rightarrow> None
             | Some (frac, s2) \<Rightarrow>
                 (case read_exponent s2 of
                    None \<Rightarrow> None
                  | Some (ex, s3) \<Rightarrow> Some (fst (read_sign ''-'' s) @ ds @ frac @ ex, s3))))"

text \<open>A key that is an array index: a canonical numeral below \<open>2^32 - 1\<close>.\<close>

fun digits_val :: "int \<Rightarrow> string \<Rightarrow> int" where
  "digits_val acc [] = acc"
| "digits_val acc (c # cs) = digits_val (10 * acc + (of_char c - 48)) cs"

definition array_index :: "string \<Rightarrow> int option" where
  "array_index k =
     (if k \<noteq> [] \<and> list_all is_digit k \<and> (k = ''0'' \<or> hd k \<noteq> CHR ''0'')
         \<and> length k \<le> 10 \<and> digits_val 0 k < 4294967295
      then Some (digits_val 0 k) else None)"

fun put :: "string \<Rightarrow> json \<Rightarrow> (string \<times> json) list \<Rightarrow> (string \<times> json) list" where
  "put k v [] = [(k, v)]"
| "put k v ((k', v') # kvs) =
     (if k' = k then (k, v) # kvs
      else
        (case array_index k of
           None \<Rightarrow> (k', v') # put k v kvs
         | Some n \<Rightarrow>
             (case array_index k' of
                None \<Rightarrow>
                  (if k \<in> fst ` set kvs then (k', v') # put k v kvs
                   else (k, v) # (k', v') # kvs)
              | Some m \<Rightarrow>
                  if n < m then (k, v) # (k', v') # kvs
                  else (k', v') # put k v kvs)))"

fun read_value :: "nat \<Rightarrow> string \<Rightarrow> (json \<times> string) option"
and read_elements :: "nat \<Rightarrow> json list \<Rightarrow> string \<Rightarrow> (json \<times> string) option"
and read_members :: "nat \<Rightarrow> (string \<times> json) list \<Rightarrow> string \<Rightarrow> (json \<times> string) option"
where
  "read_value 0 s = None"
| "read_value (Suc n) s =
     (case skip_ws s of
        [] \<Rightarrow> None
      | c # cs \<Rightarrow>
          if c = CHR ''{'' then
            (case skip_ws cs of
               [] \<Rightarrow> None
             | x # r \<Rightarrow> if x = CHR ''}'' then Some (JObj [], r) else read_members n [] cs)
          else if c = CHR ''['' then
            (case skip_ws cs of
               [] \<Rightarrow> None
             | x # r \<Rightarrow> if x = CHR '']'' then Some (JArr [], r) else read_elements n [] cs)
          else if c = dquote then
            (case read_chars [] cs of None \<Rightarrow> None | Some (str, r) \<Rightarrow> Some (JStr str, r))
          else if take 4 (c # cs) = ''true'' then Some (JBool True, drop 4 (c # cs))
          else if take 5 (c # cs) = ''false'' then Some (JBool False, drop 5 (c # cs))
          else if take 4 (c # cs) = ''null'' then Some (JNull, drop 4 (c # cs))
          else
            (case read_number (c # cs) of None \<Rightarrow> None | Some (lit, r) \<Rightarrow> Some (JNum lit, r)))"
| "read_elements 0 acc s = None"
| "read_elements (Suc n) acc s =
     (case read_value n s of
        None \<Rightarrow> None
      | Some (v, r) \<Rightarrow>
          (case skip_ws r of
             [] \<Rightarrow> None
           | x # r' \<Rightarrow>
               if x = CHR '','' then read_elements n (v # acc) r'
               else if x = CHR '']'' then Some (JArr (rev (v # acc)), r')
               else None))"
| "read_members 0 acc s = None"
| "read_members (Suc n) acc s =
     (case skip_ws s of
        [] \<Rightarrow> None
      | q # r \<Rightarrow>
          if q \<noteq> dquote then None
          else
            (case read_chars [] r of
               None \<Rightarrow> None
             | Some (k, r1) \<Rightarrow>
                 (case skip_ws r1 of
                    [] \<Rightarrow> None
                  | x # r2 \<Rightarrow>
                      if x \<noteq> CHR '':'' then None
                      else
                        (case read_value n r2 of
                           None \<Rightarrow> None
                         | Some (v, r3) \<Rightarrow>
                             (case skip_ws r3 of
                                [] \<Rightarrow> None
                              | y # r4 \<Rightarrow>
                                  if y = CHR '','' then read_members n (put k v acc) r4
                                  else if y = CHR ''}'' then Some (JObj (put k v acc), r4)
                                  else None)))))"

definition JSON_read :: "string \<Rightarrow> json option" where
  "JSON_read s =
     (case read_value (2 * length s + 2) s of
        None \<Rightarrow> None
      | Some (v, r) \<Rightarrow> if skip_ws r = [] then Some v else None)"

text \<open>
  The decoder of the examples. \<open>utf8_decode\<close> is \<^verbatim>\<open>buf.toString()\<close> on the bytes
  that decode to code units of the model: a byte below 0x80 is the character with
  its value, and a byte 0xC2 or 0xC3 followed by a continuation byte is the
  character from U+0080 to U+00FF that the two encode (the low two bits of the
  first byte above the low six bits of the second). Every other byte decodes in
  Node, alone or with the bytes it leads, to code units above 255 (U+FFFD for a
  sequence that is invalid or incomplete, as at the end of a chunk that stops
  inside a character); \<open>replacement\<close> stands for them here, and no example has
  such a byte. \<open>utf8\<close> is \<^verbatim>\<open>Buffer.from(s)\<close> on a string of the model.
\<close>

definition replacement :: char where
  "replacement = CHR 0x1A"

definition byte_char :: "byte \<Rightarrow> char" where
  "byte_char b =
     Char (bit b 0) (bit b 1) (bit b 2) (bit b 3) (bit b 4) (bit b 5) (bit b 6) (bit b 7)"

fun utf8_decode :: "byte list \<Rightarrow> string" where
  "utf8_decode [] = []"
| "utf8_decode (b # bs) =
     (if b < 0x80 then byte_char b # utf8_decode bs
      else
        (case bs of
           [] \<Rightarrow> [replacement]
         | c # r \<Rightarrow>
             if (b = 0xC2 \<or> b = 0xC3) \<and> 0x80 \<le> c \<and> c < 0xC0
             then Char (bit c 0) (bit c 1) (bit c 2) (bit c 3) (bit c 4) (bit c 5)
                    (bit b 0) (bit b 1) # utf8_decode r
             else replacement # utf8_decode bs))"

definition utf8 :: "string \<Rightarrow> byte list" where
  "utf8 s =
     concat (map (\<lambda>c. if of_char c < (0x80 :: nat) then [of_char c]
                       else [of_nat (0xC0 + of_char c div 64), of_nat (0x80 + of_char c mod 64)]) s)"

text \<open>
  The runtime the examples run on: \<open>JSON_read\<close>, and the number builtins read off
  the literal, and \<open>utf8_decode\<close>. A literal is truthy when its mantissa has a digit
  other than zero, prints as it is written, and is positive when it is truthy and
  has no sign. This is what JavaScript does for the canonical integer literals of
  up to fifteen digits; no example converts or compares a number.
\<close>

definition mantissa :: "string \<Rightarrow> string" where
  "mantissa lit = takeWhile (\<lambda>c. c \<noteq> CHR ''e'' \<and> c \<noteq> CHR ''E'') lit"

definition node :: runtime where
  "node =
     \<lparr>JSON_parse = JSON_read,
      Number_truthy = (\<lambda>lit. list_ex (\<lambda>c. c \<in> set ''123456789'') (mantissa lit)),
      Number_toString = (\<lambda>lit. lit),
      gt_zero = (\<lambda>v. case v of
                   JNum lit \<Rightarrow>
                     list_ex (\<lambda>c. c \<in> set ''123456789'') (mantissa lit) \<and> hd lit \<noteq> CHR ''-''
                 | JBool b \<Rightarrow> b
                 | _ \<Rightarrow> False),
      Buffer_toString = utf8_decode\<rparr>"

section \<open>tryParseCompleteJSON\<close>

text \<open>\<^verbatim>\<open>try { body } catch (e) { handler }\<close> on results.\<close>

definition try_catch :: "js_error + 'a \<Rightarrow> (js_error \<Rightarrow> js_error + 'a) \<Rightarrow> js_error + 'a" where
  "try_catch body handler = (case body of Inl e \<Rightarrow> handler e | Inr v \<Rightarrow> Inr v)"

fun lastIndexOf :: "char \<Rightarrow> string \<Rightarrow> nat option" where
  "lastIndexOf c [] = None"
| "lastIndexOf c (x # xs) =
     (case lastIndexOf c xs of
        Some i \<Rightarrow> Some (Suc i)
      | None \<Rightarrow> if x = c then Some 0 else None)"

text \<open>
  The string variables a block of tryParseCompleteJSON can read. \<^verbatim>\<open>cleaned\<close> is
  declared with \<^verbatim>\<open>const\<close> inside the outer \<^verbatim>\<open>try\<close> block (line 279), so it is in
  scope there and not in the \<^verbatim>\<open>catch\<close> block, which sees the parameter only.
  Reading a name that is not in scope throws a ReferenceError.
\<close>

definition try_scope :: "string \<Rightarrow> string \<Rightarrow> string \<rightharpoonup> string" where
  "try_scope buffer cleaned = [''buffer'' \<mapsto> buffer, ''cleaned'' \<mapsto> cleaned]"

definition catch_scope :: "string \<Rightarrow> string \<rightharpoonup> string" where
  "catch_scope buffer = [''buffer'' \<mapsto> buffer]"

definition read_var :: "(string \<rightharpoonup> string) \<Rightarrow> string \<Rightarrow> js_error + string" where
  "read_var scope name = (case scope name of None \<Rightarrow> Inl ReferenceError | Some v \<Rightarrow> Inr v)"

definition parse_or_throw :: "runtime \<Rightarrow> string \<Rightarrow> js_error + json" where
  "parse_or_throw rt s = (case JSON_parse rt s of None \<Rightarrow> Inl SyntaxError | Some j \<Rightarrow> Inr j)"

text \<open>
  The inner \<^verbatim>\<open>try\<close> block (lines 287-294): \<open>Inr (Some j)\<close> is \<^verbatim>\<open>return j\<close>, \<open>Inr None\<close>
  is falling out of the block.
\<close>

definition repair :: "runtime \<Rightarrow> (string \<rightharpoonup> string) \<Rightarrow> js_error + json option" where
  "repair rt scope =
     (case read_var scope ''cleaned'' of
        Inl e \<Rightarrow> Inl e
      | Inr cleaned \<Rightarrow>
          (case (indexOf CHR ''{'' cleaned, lastIndexOf CHR ''}'' cleaned) of
             (Some start, Some end') \<Rightarrow>
               if end' > start
               then map_sum id Some (parse_or_throw rt (substring cleaned start (end' + 1)))
               else Inr None
           | _ \<Rightarrow> Inr None))"

text \<open>
  tryParseCompleteJSON (lines 276-300); \<^verbatim>\<open>null\<close> is \<open>JNull\<close>. A block that falls
  through reaches the \<^verbatim>\<open>return null\<close> of line 299.
\<close>

definition tryParseCompleteJSON :: "runtime \<Rightarrow> string \<Rightarrow> js_error + json" where
  "tryParseCompleteJSON rt buffer =
     try_catch
       (case read_var (try_scope buffer (trim buffer)) ''cleaned'' of
          Inl e \<Rightarrow> Inl e
        | Inr cleaned \<Rightarrow> if cleaned = [] then Inr JNull else parse_or_throw rt cleaned)
       (\<lambda>error.
          map_sum id (\<lambda>r. case r of None \<Rightarrow> JNull | Some j \<Rightarrow> j)
            (try_catch (repair rt (catch_scope buffer)) (\<lambda>secondError. Inr (Some JNull))))"

section \<open>processCompleteResponse\<close>

record walk_result =
  walk_text :: string
  walk_images :: "imageData list"

text \<open>
  extractRecursive (lines 341-365) on the accumulated \<^verbatim>\<open>result\<close>; the second and
  third function are \<^verbatim>\<open>obj.forEach(extractRecursive)\<close> on an array and
  \<^verbatim>\<open>Object.values(obj).forEach(extractRecursive)\<close> on an object.
\<close>

definition visit_text :: "runtime \<Rightarrow> json \<Rightarrow> walk_result \<Rightarrow> walk_result" where
  "visit_text rt obj result =
     (case get_v obj ''text'' of
        None \<Rightarrow> result
      | Some t \<Rightarrow>
          if truthy rt t then result\<lparr>walk_text := walk_text result @ ToString rt t\<rparr>
          else result)"

definition visit_image :: "runtime \<Rightarrow> json \<Rightarrow> walk_result \<Rightarrow> walk_result" where
  "visit_image rt obj result =
     (case get_v obj ''inlineData'' of
        None \<Rightarrow> result
      | Some inlineData \<Rightarrow>
          (case (get_v inlineData ''data'', get_v inlineData ''mimeType'') of
             (Some d, Some m) \<Rightarrow>
               if truthy rt inlineData \<and> truthy rt d \<and> truthy rt m
               then result\<lparr>walk_images := walk_images result @ [\<lparr>data = d, mimeType = m\<rparr>]\<rparr>
               else result
           | _ \<Rightarrow> result))"

fun extractRecursive :: "runtime \<Rightarrow> walk_result \<Rightarrow> json \<Rightarrow> walk_result"
and extractRecursive_each :: "runtime \<Rightarrow> walk_result \<Rightarrow> json list \<Rightarrow> walk_result"
and extractRecursive_values :: "runtime \<Rightarrow> walk_result \<Rightarrow> (string \<times> json) list \<Rightarrow> walk_result"
where
  "extractRecursive rt result JNull = result"
| "extractRecursive rt result (JBool b) = result"
| "extractRecursive rt result (JNum n) = result"
| "extractRecursive rt result (JStr s) = result"
| "extractRecursive rt result (JArr xs) = extractRecursive_each rt result xs"
| "extractRecursive rt result (JObj kvs) =
     extractRecursive_values rt
       (visit_image rt (JObj kvs) (visit_text rt (JObj kvs) result)) kvs"
| "extractRecursive_each rt result [] = result"
| "extractRecursive_each rt result (x # xs) =
     extractRecursive_each rt (extractRecursive rt result x) xs"
| "extractRecursive_values rt result [] = result"
| "extractRecursive_values rt result ((k, v) # kvs) =
     extractRecursive_values rt (extractRecursive rt result v) kvs"

text \<open>
  handleImageData (lines 387-411). \<^verbatim>\<open>imageData.data.startsWith\<close> is a TypeError
  unless the data is a string. The key and the write are \<^verbatim>\<open>uuidv4()\<close> and
  \<^verbatim>\<open>cacheService.saveImage\<close>, which are not in the sources: \<open>saved\<close> is what they
  gave, \<open>Inr key\<close> when the image was written under \<open>key\<close> and \<open>Inl e\<close> when the write
  was rejected with \<open>e\<close>. The key is pushed to \<^verbatim>\<open>cacheKeys\<close> by the caller of this
  function in the model.
\<close>

definition handleImageData :: "js_error + string \<Rightarrow> imageData \<Rightarrow> js_error + string" where
  "handleImageData saved imageData =
     (case data imageData of
        JStr d \<Rightarrow> saved
      | _ \<Rightarrow> Inl TypeError)"

section \<open>A streaming session\<close>

text \<open>
  The calls of \<^verbatim>\<open>onChunk\<close> in streamGenerateContent, by the \<^verbatim>\<open>type\<close> of the object
  passed: \<^verbatim>\<open>text\<close> (content, accumulated, chunkIndex, isFinal), \<^verbatim>\<open>image\<close> (key; the
  timestamp is left out), \<^verbatim>\<open>error\<close> (\<^verbatim>\<open>Failed to save image:\<close> and the message of
  the error), \<^verbatim>\<open>complete\<close> (data, chunkCount), \<^verbatim>\<open>image_keys\<close> (keys, count) and
  \<^verbatim>\<open>completion\<close> (success, totalChunks, textLength, imageCount).
\<close>

record complete_data =
  complete_text :: string
  complete_images :: "(imageData \<times> string option) list"

datatype event =
    TextEvent string string nat bool
  | ImageEvent string
  | ErrorEvent js_error
  | CompleteEvent complete_data nat
  | ImageKeysEvent "string list" nat
  | CompletionEvent bool nat nat nat

text \<open>
  Where the session stands: \<open>Streaming\<close> until the stream ends; \<open>Finalizing\<close> while
  the \<^verbatim>\<open>end\<close> handler waits for processCompleteResponse, with the text the walk
  found, the images already handled (with their key when saved) and the images
  still to handle; \<open>Resolved\<close> and \<open>Rejected\<close> when the promise is settled.
\<close>

datatype phase =
    Streaming
  | Finalizing string "(imageData \<times> string option) list" "imageData list"
  | Resolved
  | Rejected

text \<open>
  A call of handleImageData that processStreamBuffer started without waiting
  (lines 240-254): \<open>Started\<close> until the write settles; \<open>Stored key\<close> once
  handleImageData has pushed the key to \<^verbatim>\<open>cacheKeys\<close> and returned it, until the
  \<^verbatim>\<open>then\<close> callback runs; \<open>Reported\<close> after the \<^verbatim>\<open>then\<close> or the \<^verbatim>\<open>catch\<close> callback.
\<close>

datatype task =
    Started imageData
  | Stored string
  | Reported

text \<open>
  The variables of the promise body (lines 79-83), the calls of \<^verbatim>\<open>onChunk\<close> so far,
  and the calls of handleImageData that processStreamBuffer started, in the order
  they were started. \<open>objects\<close> records the parsed objects the decoder has
  surfaced, in order.
\<close>

record session =
  buffer :: string
  responseText :: string
  cacheKeys :: "string list"
  chunkCount :: nat
  phase :: phase
  events :: "event list"
  tasks :: "task list"
  objects :: "json list"

definition init :: session where
  "init =
     \<lparr>buffer = [], responseText = [], cacheKeys = [], chunkCount = 0, phase = Streaming,
      events = [], tasks = [], objects = []\<rparr>"

definition option_list :: "'a option \<Rightarrow> 'a list" where
  "option_list x = (case x of None \<Rightarrow> [] | Some v \<Rightarrow> [v])"

text \<open>
  The \<^verbatim>\<open>data\<close> handler (lines 85-105). The chunk is decoded on its own (line 87)
  and the text is appended to the buffer.
\<close>

definition on_data :: "runtime \<Rightarrow> byte list \<Rightarrow> session \<Rightarrow> session" where
  "on_data rt chunk s =
     (let chunkStr = Buffer_toString rt chunk;
          processed = processStreamBuffer rt (buffer s @ chunkStr)
      in s\<lparr>chunkCount := chunkCount s + 1,
           responseText :=
             (if extractedText processed \<noteq> []
              then responseText s @ extractedText processed else responseText s),
           events :=
             (if extractedText processed \<noteq> []
              then events s @
                [TextEvent (extractedText processed)
                   (responseText s @ extractedText processed) (chunkCount s + 1) False]
              else events s),
           tasks := tasks s @ map Started (option_list (imageTask processed)),
           objects := objects s @ option_list (surfaced processed),
           buffer := remainingBuffer processed\<rparr>)"

text \<open>
  The end of the \<^verbatim>\<open>end\<close> handler (lines 135-158): the \<^verbatim>\<open>image_keys\<close> event when a
  key is cached, the \<^verbatim>\<open>completion\<close> event, and \<^verbatim>\<open>resolve\<close>.
\<close>

definition finish :: "session \<Rightarrow> session" where
  "finish s =
     s\<lparr>events :=
         events s
         @ (if cacheKeys s \<noteq> [] then [ImageKeysEvent (cacheKeys s) (length (cacheKeys s))]
            else [])
         @ [CompletionEvent True (chunkCount s) (length (responseText s))
              (length (cacheKeys s))],
       phase := Resolved\<rparr>"

text \<open>
  The pass of the \<^verbatim>\<open>end\<close> handler over what is left in the buffer (lines
  111-121). The buffer is not assigned here.
\<close>

definition end_pass :: "runtime \<Rightarrow> session \<Rightarrow> session" where
  "end_pass rt s =
     (let processed = processStreamBuffer rt (buffer s)
      in s\<lparr>responseText :=
             (if extractedText processed \<noteq> []
              then responseText s @ extractedText processed else responseText s),
           events :=
             (if extractedText processed \<noteq> []
              then events s @
                [TextEvent (extractedText processed)
                   (responseText s @ extractedText processed) (chunkCount s) True]
              else events s),
           tasks := tasks s @ map Started (option_list (imageTask processed)),
           objects := objects s @ option_list (surfaced processed)\<rparr>)"

text \<open>
  The \<^verbatim>\<open>end\<close> handler up to its \<^verbatim>\<open>await\<close> (lines 107-126). tryParseCompleteJSON
  reads the buffer that processStreamBuffer was given in the pass before it.
  processCompleteResponse runs extractRecursive at once and then waits for the
  images one by one. An exception in the handler rejects the promise.
\<close>

definition on_end :: "runtime \<Rightarrow> session \<Rightarrow> session" where
  "on_end rt s =
     (if trim (buffer s) = [] then finish s
      else
        (let s1 = end_pass rt s
         in case tryParseCompleteJSON rt (buffer s1) of
              Inl e \<Rightarrow> s1\<lparr>phase := Rejected\<rparr>
            | Inr finalData \<Rightarrow>
                if truthy rt finalData
                then
                  (let walked =
                     extractRecursive rt \<lparr>walk_text = [], walk_images = []\<rparr> finalData
                   in s1\<lparr>phase := Finalizing (walk_text walked) [] (walk_images walked)\<rparr>)
                else finish s1))"

text \<open>
  One turn of the loop of processCompleteResponse (lines 370-379): the awaited
  handleImageData has settled. A key is pushed to \<^verbatim>\<open>cacheKeys\<close> and written into the
  image's entry; a failure is logged and the image keeps no key.
\<close>

definition on_awaited :: "js_error + string \<Rightarrow> session \<Rightarrow> session" where
  "on_awaited saved s =
     (case phase s of
        Finalizing t handled (imageData # rest) \<Rightarrow>
          (case handleImageData saved imageData of
             Inr key \<Rightarrow>
               s\<lparr>cacheKeys := cacheKeys s @ [key],
                 phase := Finalizing t (handled @ [(imageData, Some key)]) rest\<rparr>
           | Inl e \<Rightarrow> s\<lparr>phase := Finalizing t (handled @ [(imageData, None)]) rest\<rparr>)
      | _ \<Rightarrow> s)"

text \<open>
  processCompleteResponse has returned: the \<^verbatim>\<open>complete\<close> event (lines 127-131) and
  the rest of the handler.
\<close>

definition on_resumed :: "session \<Rightarrow> session" where
  "on_resumed s =
     (case phase s of
        Finalizing t handled [] \<Rightarrow>
          finish (s\<lparr>events := events s @
            [CompleteEvent \<lparr>complete_text = t, complete_images = handled\<rparr> (chunkCount s)]\<rparr>)
      | _ \<Rightarrow> s)"

text \<open>
  A call of handleImageData that processStreamBuffer started has settled; \<open>i\<close>
  is the position of the call among those started. When the image is saved, the
  key is pushed to \<^verbatim>\<open>cacheKeys\<close> and the \<^verbatim>\<open>then\<close> callback is due; when it fails,
  the \<^verbatim>\<open>catch\<close> callback reports the failure in an \<^verbatim>\<open>error\<close> event.
\<close>

definition on_settled :: "nat \<Rightarrow> js_error + string \<Rightarrow> session \<Rightarrow> session" where
  "on_settled i saved s =
     (if i < length (tasks s) then
        (case tasks s ! i of
           Started imageData \<Rightarrow>
             (case handleImageData saved imageData of
                Inr key \<Rightarrow>
                  s\<lparr>cacheKeys := cacheKeys s @ [key], tasks := (tasks s)[i := Stored key]\<rparr>
              | Inl e \<Rightarrow>
                  s\<lparr>events := events s @ [ErrorEvent e], tasks := (tasks s)[i := Reported]\<rparr>)
         | _ \<Rightarrow> s)
      else s)"

text \<open>The \<^verbatim>\<open>then\<close> callback of lines 241-247: the \<^verbatim>\<open>image\<close> event.\<close>

definition on_then :: "nat \<Rightarrow> session \<Rightarrow> session" where
  "on_then i s =
     (if i < length (tasks s) then
        (case tasks s ! i of
           Stored key \<Rightarrow>
             s\<lparr>events := events s @ [ImageEvent key], tasks := (tasks s)[i := Reported]\<rparr>
         | _ \<Rightarrow> s)
      else s)"

text \<open>
  What can happen to a session, one callback at a time: a chunk arrives, the
  stream ends or fails, a handleImageData call started by processStreamBuffer
  settles, its \<^verbatim>\<open>then\<close> callback runs, the handleImageData call that
  processCompleteResponse waits for settles, or processCompleteResponse returns.
  Chunks and the end of the stream reach a session only while it is streaming; a
  callback that cannot run leaves the session as it is. A list of actions is one
  order in which the callbacks of a session run.
\<close>

datatype action =
    Data "byte list"
  | StreamEnd
  | StreamError
  | Settled nat "js_error + string"
  | Then nat
  | Awaited "js_error + string"
  | Resumed

fun step :: "runtime \<Rightarrow> session \<Rightarrow> action \<Rightarrow> session" where
  "step rt s (Data chunk) = (if phase s = Streaming then on_data rt chunk s else s)"
| "step rt s StreamEnd = (if phase s = Streaming then on_end rt s else s)"
| "step rt s StreamError = (if phase s = Streaming then s\<lparr>phase := Rejected\<rparr> else s)"
| "step rt s (Settled i saved) = on_settled i saved s"
| "step rt s (Then i) = on_then i s"
| "step rt s (Awaited saved) = on_awaited saved s"
| "step rt s Resumed = on_resumed s"

definition run :: "runtime \<Rightarrow> action list \<Rightarrow> session" where
  "run rt actions = foldl (step rt) init actions"

text \<open>
  The parsed objects of a session that is fed the chunks in order and then ended:
  the \<^verbatim>\<open>data\<close> handler once per chunk, then the pass of the \<^verbatim>\<open>end\<close> handler.
\<close>

definition decode :: "runtime \<Rightarrow> byte list list \<Rightarrow> json list" where
  "decode rt chunks = objects (run rt (map Data chunks @ [StreamEnd]))"

section \<open>Notions the statements use\<close>

text \<open>The \<^verbatim>\<open>data\<close> callbacks for a list of chunks.\<close>

definition feed :: "runtime \<Rightarrow> session \<Rightarrow> byte list list \<Rightarrow> session" where
  "feed rt s chunks = foldl (step rt) s (map Data chunks)"

text \<open>
  The text the \<^verbatim>\<open>data\<close> callbacks put into the buffer for a list of chunks: each
  chunk decoded on its own, one text after the other.
\<close>

definition decoded :: "runtime \<Rightarrow> byte list list \<Rightarrow> string" where
  "decoded rt chunks = concat (map (Buffer_toString rt) chunks)"

text \<open>
  What the decoder would surface from a buffer if processStreamBuffer were called
  on it again and again until a call surfaces nothing. A call that surfaces an
  object returns a shorter buffer, so one call more than the buffer has characters
  is enough.
\<close>

fun extract_upto :: "nat \<Rightarrow> runtime \<Rightarrow> string \<Rightarrow> json list" where
  "extract_upto 0 rt b = []"
| "extract_upto (Suc n) rt b =
     (case surfaced (processStreamBuffer rt b) of
        None \<Rightarrow> []
      | Some j \<Rightarrow> j # extract_upto n rt (remainingBuffer (processStreamBuffer rt b)))"

definition extract_all :: "runtime \<Rightarrow> string \<Rightarrow> json list" where
  "extract_all rt b = extract_upto (Suc (length b)) rt b"

text \<open>
  A well-formed object, for the decoder: a text that starts with \<^verbatim>\<open>{\<close>, whose
  scan closes at its last character and not before, that \<^verbatim>\<open>JSON.parse\<close> accepts
  and whose content extractContentFromJSON extracts without an exception (so no
  block reason). \<open>parsed\<close> is the value \<^verbatim>\<open>JSON.parse\<close> gives it.
\<close>

definition parsed :: "runtime \<Rightarrow> string \<Rightarrow> json" where
  "parsed rt obj = (case JSON_parse rt obj of None \<Rightarrow> JNull | Some j \<Rightarrow> j)"

definition well_formed :: "runtime \<Rightarrow> string \<Rightarrow> bool" where
  "well_formed rt obj =
     (indexOf CHR ''{'' obj = Some 0
      \<and> find_end obj 0 = Some (length obj - 1)
      \<and> (case JSON_parse rt obj of
            None \<Rightarrow> False
          | Some j \<Rightarrow> (case extractContentFromJSON rt j of Inl e \<Rightarrow> False | Inr c \<Rightarrow> True)))"

text \<open>
  A shaped object: a list of candidates, each with the parts of its content; a
  part is \<^verbatim>\<open>{text}\<close> or \<^verbatim>\<open>{inlineData: {data, mimeType}}\<close>. \<open>is_shaped\<close> says that
  a parsed object has this shape, with the given parts for each candidate, whatever
  other properties the object, its candidates, their contents and the parts have:
  the property \<^verbatim>\<open>candidates\<close> is an array; each of its elements has an object
  \<^verbatim>\<open>content\<close> whose \<^verbatim>\<open>parts\<close> is an array; a text part has a string \<^verbatim>\<open>text\<close> (and
  no \<^verbatim>\<open>inlineData\<close> beside an empty text), an inlineData part has no \<^verbatim>\<open>text\<close> and
  an object \<^verbatim>\<open>inlineData\<close> with strings \<^verbatim>\<open>data\<close> and \<^verbatim>\<open>mimeType\<close>; and the object
  has no block reason. \<open>shaped_json\<close> is the shaped object with these properties
  and no other. \<open>part_text\<close> and \<open>part_image\<close> say what one part contributes: its
  text, and its image when the data is not empty (with \<^verbatim>\<open>image/png\<close> for an empty
  mime type); \<open>last_image\<close> is the image of the last part that has one.
\<close>

datatype part = TextPart string | InlineDataPart string string

fun part_json :: "part \<Rightarrow> json" where
  "part_json (TextPart t) = JObj [(''text'', JStr t)]"
| "part_json (InlineDataPart d m) =
     JObj [(''inlineData'', JObj [(''data'', JStr d), (''mimeType'', JStr m)])]"

definition candidate_json :: "part list \<Rightarrow> json" where
  "candidate_json parts = JObj [(''content'', JObj [(''parts'', JArr (map part_json parts))])]"

definition shaped_json :: "part list list \<Rightarrow> json" where
  "shaped_json candidates = JObj [(''candidates'', JArr (map candidate_json candidates))]"

fun is_part :: "part \<Rightarrow> json \<Rightarrow> bool" where
  "is_part (TextPart t) j =
     (get_v j ''text'' = Some (JStr t) \<and> (t \<noteq> [] \<or> get_v j ''inlineData'' = None))"
| "is_part (InlineDataPart d m) j =
     (get_v j ''text'' = None
      \<and> (case get_v j ''inlineData'' of
            Some (JObj kvs) \<Rightarrow>
              map_of kvs ''data'' = Some (JStr d) \<and> map_of kvs ''mimeType'' = Some (JStr m)
          | _ \<Rightarrow> False))"

definition is_candidate :: "part list \<Rightarrow> json \<Rightarrow> bool" where
  "is_candidate parts j =
     (case get_v j ''content'' of
        Some (JObj kvs) \<Rightarrow>
          (case map_of kvs ''parts'' of
             Some (JArr ps) \<Rightarrow> list_all2 is_part parts ps
           | _ \<Rightarrow> False)
      | _ \<Rightarrow> False)"

definition is_shaped :: "part list list \<Rightarrow> json \<Rightarrow> bool" where
  "is_shaped candidates j =
     ((case get_v j ''candidates'' of
         Some (JArr cs) \<Rightarrow> list_all2 is_candidate candidates cs
       | _ \<Rightarrow> False)
      \<and> (case get_v j ''promptFeedback'' of
            None \<Rightarrow> True
          | Some feedback \<Rightarrow> get_v feedback ''blockReason'' = None))"

fun part_text :: "part \<Rightarrow> string" where
  "part_text (TextPart t) = t"
| "part_text (InlineDataPart d m) = []"

fun part_image :: "part \<Rightarrow> imageData list" where
  "part_image (TextPart t) = []"
| "part_image (InlineDataPart d m) =
     (if d = [] then []
      else [\<lparr>data = JStr d, mimeType = JStr (if m = [] then ''image/png'' else m)\<rparr>])"

definition last_image :: "imageData option \<Rightarrow> part list \<Rightarrow> imageData option" where
  "last_image before parts =
     (if concat (map part_image parts) = [] then before
      else Some (last (concat (map part_image parts))))"

definition after_parts :: "content \<Rightarrow> part list \<Rightarrow> content" where
  "after_parts result parts =
     \<lparr>content_text = content_text result @ concat (map part_text parts),
      content_imageData = last_image (content_imageData result) parts\<rparr>"

text \<open>
  Kinds of events: the \<^verbatim>\<open>completion\<close> event; the \<^verbatim>\<open>image\<close> event; the events a
  call of handleImageData started by processStreamBuffer reports with, \<^verbatim>\<open>image\<close>
  and \<^verbatim>\<open>error\<close>; and the events the \<^verbatim>\<open>end\<close> handler emits before the
  \<^verbatim>\<open>completion\<close> event, the final \<^verbatim>\<open>text\<close> event, \<^verbatim>\<open>complete\<close> and \<^verbatim>\<open>image_keys\<close>.
\<close>

definition is_completion :: "event \<Rightarrow> bool" where
  "is_completion e = (case e of CompletionEvent ok chunks chars images \<Rightarrow> True | _ \<Rightarrow> False)"

definition is_image :: "event \<Rightarrow> bool" where
  "is_image e = (case e of ImageEvent key \<Rightarrow> True | _ \<Rightarrow> False)"

definition is_report :: "event \<Rightarrow> bool" where
  "is_report e = (case e of ImageEvent key \<Rightarrow> True | ErrorEvent err \<Rightarrow> True | _ \<Rightarrow> False)"

definition is_end_event :: "event \<Rightarrow> bool" where
  "is_end_event e =
     (case e of
        TextEvent t accumulated chunkIndex isFinal \<Rightarrow> isFinal
      | CompleteEvent d chunks \<Rightarrow> True
      | ImageKeysEvent keys n \<Rightarrow> True
      | _ \<Rightarrow> False)"

text \<open>
  The keys of the calls of handleImageData that processStreamBuffer started and
  that have stored their image: \<open>due s\<close> counts the \<^verbatim>\<open>image\<close> events delivered and
  the keys stored whose \<^verbatim>\<open>image\<close> event is still to come. \<open>keys_cover\<close>: each of
  them is in \<^verbatim>\<open>cacheKeys\<close>, a fact that holds of a session whatever has happened to
  it.
\<close>

definition stored :: "task \<Rightarrow> nat" where
  "stored t = (case t of Stored key \<Rightarrow> 1 | _ \<Rightarrow> 0)"

definition due :: "session \<Rightarrow> nat" where
  "due s = length (filter is_image (events s)) + sum_list (map stored (tasks s))"

definition keys_cover :: "session \<Rightarrow> bool" where
  "keys_cover s = (due s \<le> length (cacheKeys s))"

text \<open>
  How the scan passes over a piece of text, for the relation between the scanner
  and the JSON reader. A \<open>plain\<close> character is none of the four the scanner looks
  at. Outside a string and at depth one or more, the scan \<open>skips\<close> a text when it
  leaves it in the state in which it entered it; inside a string it leaves a text
  that \<open>string_skips\<close> outside of the string. The scan \<open>closes\<close> on a text when the
  text brings the depth down by one and ends there: the scan stops at its last
  character when the depth was one, and goes on one level up otherwise. The last
  three say what the reader's functions read, for a given bound of the recursion.
\<close>

definition plain :: "char \<Rightarrow> bool" where
  "plain c = (c \<noteq> dquote \<and> c \<noteq> backslash \<and> c \<noteq> CHR ''{'' \<and> c \<noteq> CHR ''}'')"

definition skips :: "string \<Rightarrow> bool" where
  "skips c = (\<forall>bc i ys. 1 \<le> bc \<longrightarrow>
      scan bc False False i (c @ ys) = scan bc False False (i + length c) ys)"

definition string_skips :: "string \<Rightarrow> bool" where
  "string_skips c = (\<forall>bc i ys.
      scan bc True False i (c @ ys) = scan bc False False (i + length c) ys)"

definition closes :: "string \<Rightarrow> bool" where
  "closes c = (c \<noteq> [] \<and> (\<forall>bc i ys. 0 \<le> bc \<longrightarrow>
      scan (bc + 1) False False i (c @ ys) =
        (if bc = 0 then Some (i + length c - 1) else scan bc False False (i + length c) ys)))"

definition value_skips :: "nat \<Rightarrow> bool" where
  "value_skips n = (\<forall>s v r. read_value n s = Some (v, r) \<longrightarrow> (\<exists>c. s = c @ r \<and> skips c))"

definition elements_skip :: "nat \<Rightarrow> bool" where
  "elements_skip n =
     (\<forall>acc s v r. read_elements n acc s = Some (v, r) \<longrightarrow> (\<exists>c. s = c @ r \<and> skips c))"

definition members_close :: "nat \<Rightarrow> bool" where
  "members_close n =
     (\<forall>acc s v r. read_members n acc s = Some (v, r) \<longrightarrow> (\<exists>c. s = c @ r \<and> closes c))"

text \<open>The inputs of the examples.\<close>

definition nested_input :: string where
  \<open>nested_input =
     ''{"text":"a '' @ [backslash] @ ''"nested'' @ [backslash] @ ''" } brace"}''\<close>



definition image_input :: string where
  \<open>image_input =
     ''{"candidates":[{"content":{"parts":[''
     @ ''{"inlineData":{"data":"QQ==","mimeType":"image/png"}}]}}]}''\<close>

definition blocked_input :: string where
  \<open>blocked_input = ''{"promptFeedback":{"blockReason":"SAFETY"}}''\<close>

definition twice_input :: string where
  \<open>twice_input =
     ''{"a":"b"}{"candidates":[{"content":{"parts":[{"text":"Hi"},''
     @ ''{"inlineData":{"data":"QQ==","mimeType":"image/png"}}]}}]}''\<close>

section \<open>Properties of the scanner\<close>

lemma scan_bounds:
  "scan bc ins esc i cs = Some e \<Longrightarrow> i \<le> e \<and> e < i + length cs"
  by (induction cs arbitrary: bc ins esc i) (fastforce split: if_splits)+

lemma scan_append:
  "scan bc ins esc i cs = Some e \<Longrightarrow> scan bc ins esc i (cs @ ys) = Some e"
  by (induction cs arbitrary: bc ins esc i) (auto split: if_splits)

lemma indexOf_bounds:
  "indexOf c s = Some i \<Longrightarrow> i < length s \<and> s ! i = c \<and> c \<notin> set (take i s)"
  by (induction s arbitrary: i) (auto split: if_splits)

lemma indexOf_None: "indexOf c s = None \<longleftrightarrow> c \<notin> set s"
  by (induction s) auto

lemma indexOf_append: "indexOf c s = Some i \<Longrightarrow> indexOf c (s @ ys) = Some i"
  by (induction s arbitrary: i) (auto split: if_splits)

lemma find_end_bounds:
  "startIndex \<le> length b \<Longrightarrow> find_end b startIndex = Some e \<Longrightarrow> startIndex \<le> e \<and> e < length b"
  unfolding find_end_def by (drule scan_bounds) auto

lemma find_end_append:
  "startIndex \<le> length b \<Longrightarrow> find_end b startIndex = Some e \<Longrightarrow>
   find_end (b @ ys) startIndex = Some e"
  unfolding find_end_def by (simp add: scan_append)

lemma substring_append:
  "e \<le> length b \<Longrightarrow> substring (b @ ys) startIndex e = substring b startIndex e"
  unfolding substring_def by simp

lemma split_buffer:
  assumes "startIndex \<le> e" and "e < length b"
  shows "b = take startIndex b @ substring b startIndex (e + 1) @ drop (e + 1) b"
proof -
  have "drop startIndex b = take (e + 1 - startIndex) (drop startIndex b)
          @ drop (e + 1 - startIndex) (drop startIndex b)"
    by (rule append_take_drop_id [symmetric])
  also have "drop (e + 1 - startIndex) (drop startIndex b) = drop (e + 1) b"
    using assms by simp
  finally have "drop startIndex b = substring b startIndex (e + 1) @ drop (e + 1) b"
    unfolding substring_def .
  then show ?thesis by (metis append_take_drop_id)
qed

section \<open>What one call of processStreamBuffer does\<close>

text \<open>
  A call either changes nothing and surfaces nothing, or it has found the first
  \<^verbatim>\<open>{\<close>, the brace that closes it, parsed the span between them, extracted its
  content, and returns the buffer after the span.
\<close>

lemma processStreamBuffer_cases:
  "(surfaced (processStreamBuffer rt b) = None
      \<and> remainingBuffer (processStreamBuffer rt b) = b
      \<and> extractedText (processStreamBuffer rt b) = []
      \<and> imageTask (processStreamBuffer rt b) = None)
   \<or> (\<exists>startIndex endIndex jsonData processed.
        indexOf CHR ''{'' b = Some startIndex \<and> find_end b startIndex = Some endIndex
        \<and> JSON_parse rt (substring b startIndex (endIndex + 1)) = Some jsonData
        \<and> extractContentFromJSON rt jsonData = Inr processed
        \<and> processStreamBuffer rt b =
            \<lparr>extractedText = content_text processed, remainingBuffer = drop (endIndex + 1) b,
             imageTask = content_imageData processed, surfaced = Some jsonData,
             warned = False\<rparr>)"
  unfolding processStreamBuffer_def unchanged_def
  by (auto split: option.splits sum.splits)

section \<open>The buffer of a session\<close>

text \<open>
  Claim C8. A \<^verbatim>\<open>data\<close> callback appends the text of the chunk to the buffer and
  then removes bytes only together with a successful extraction: either no object
  is surfaced and the buffer is the old buffer with the text of the chunk
  appended, nothing removed; or one object is surfaced, it is the parse of the
  span from the first \<^verbatim>\<open>{\<close> to its closing brace, its content was extracted without
  an error, and what is removed is exactly that span and the bytes before it.
\<close>

theorem buffer_commit_after_extraction:
  "(objects (on_data rt chunk s) = objects s
      \<and> buffer (on_data rt chunk s) = buffer s @ Buffer_toString rt chunk)
   \<or> (\<exists>startIndex endIndex jsonData processed.
         indexOf CHR ''{'' (buffer s @ Buffer_toString rt chunk) = Some startIndex
       \<and> find_end (buffer s @ Buffer_toString rt chunk) startIndex = Some endIndex
       \<and> JSON_parse rt (substring (buffer s @ Buffer_toString rt chunk) startIndex (endIndex + 1))
           = Some jsonData
       \<and> extractContentFromJSON rt jsonData = Inr processed
       \<and> objects (on_data rt chunk s) = objects s @ [jsonData]
       \<and> buffer s @ Buffer_toString rt chunk =
           take startIndex (buffer s @ Buffer_toString rt chunk)
           @ substring (buffer s @ Buffer_toString rt chunk) startIndex (endIndex + 1)
           @ buffer (on_data rt chunk s))"
proof -
  let ?b = "buffer s @ Buffer_toString rt chunk"
  from processStreamBuffer_cases [of rt ?b] show ?thesis
  proof
    assume "surfaced (processStreamBuffer rt ?b) = None
      \<and> remainingBuffer (processStreamBuffer rt ?b) = ?b
      \<and> extractedText (processStreamBuffer rt ?b) = []
      \<and> imageTask (processStreamBuffer rt ?b) = None"
    then show ?thesis by (simp add: on_data_def Let_def option_list_def)
  next
    assume "\<exists>startIndex endIndex jsonData processed.
        indexOf CHR ''{'' ?b = Some startIndex \<and> find_end ?b startIndex = Some endIndex
        \<and> JSON_parse rt (substring ?b startIndex (endIndex + 1)) = Some jsonData
        \<and> extractContentFromJSON rt jsonData = Inr processed
        \<and> processStreamBuffer rt ?b =
            \<lparr>extractedText = content_text processed, remainingBuffer = drop (endIndex + 1) ?b,
             imageTask = content_imageData processed, surfaced = Some jsonData,
             warned = False\<rparr>"
    then obtain st e j p where h:
      "indexOf CHR ''{'' ?b = Some st" "find_end ?b st = Some e"
      "JSON_parse rt (substring ?b st (e + 1)) = Some j"
      "extractContentFromJSON rt j = Inr p"
      "processStreamBuffer rt ?b =
            \<lparr>extractedText = content_text p, remainingBuffer = drop (e + 1) ?b,
             imageTask = content_imageData p, surfaced = Some j, warned = False\<rparr>"
      by blast
    have st: "st < length ?b" using indexOf_bounds [OF h(1)] by simp
    have e: "st \<le> e \<and> e < length ?b" using find_end_bounds [OF _ h(2)] st by simp
    have "?b = take st ?b @ substring ?b st (e + 1) @ drop (e + 1) ?b"
      using split_buffer e by blast
    moreover have "buffer (on_data rt chunk s) = drop (e + 1) ?b"
      using h(5) by (simp add: on_data_def Let_def)
    moreover have "objects (on_data rt chunk s) = objects s @ [j]"
      using h(5) by (simp add: on_data_def Let_def option_list_def)
    ultimately show ?thesis using h(1-4) by metis
  qed
qed

section \<open>A span that does not parse\<close>

text \<open>
  Claim C2, as the code has it. When the span from the first \<^verbatim>\<open>{\<close> to its closing
  brace does not parse, processStreamBuffer logs a warning and returns the buffer
  unchanged, with no text, no image and no object; and so does every later call,
  whatever has been appended to the buffer in between, because the scan starts at
  the same brace and ends at the same one. The span is not discarded, and nothing
  behind it is extracted. A \<^verbatim>\<open>data\<close> callback on such a buffer counts the chunk
  and keeps its text in the buffer, and does nothing else: no event, and no error
  of the session.
\<close>

theorem malformed_span_keeps_buffer:
  assumes "indexOf CHR ''{'' b = Some startIndex"
    and "find_end b startIndex = Some endIndex"
    and "JSON_parse rt (substring b startIndex (endIndex + 1)) = None"
  shows "processStreamBuffer rt (b @ later) = unchanged (b @ later) True
         \<and> (buffer s @ Buffer_toString rt chunk = b @ later \<longrightarrow>
              on_data rt chunk s = s\<lparr>chunkCount := chunkCount s + 1, buffer := b @ later\<rparr>)"
proof -
  have st: "startIndex < length b" using indexOf_bounds [OF assms(1)] by simp
  have e: "endIndex < length b" using find_end_bounds [OF _ assms(2)] st by simp
  have 1: "indexOf CHR ''{'' (b @ later) = Some startIndex"
    using assms(1) by (rule indexOf_append)
  have 2: "find_end (b @ later) startIndex = Some endIndex"
    using find_end_append [OF _ assms(2)] st by simp
  have 3: "substring (b @ later) startIndex (endIndex + 1) = substring b startIndex (endIndex + 1)"
    using e by (simp add: substring_append)
  have p: "processStreamBuffer rt (b @ later) = unchanged (b @ later) True"
    unfolding processStreamBuffer_def using 1 2 3 assms(3) by simp
  then show ?thesis
    by (simp add: on_data_def Let_def unchanged_def option_list_def)
qed

theorem malformed_span_keeps_buffer_witness:
  \<open>indexOf CHR ''{'' ''x{a}'' = Some 1 \<and> find_end ''x{a}'' 1 = Some 3
   \<and> JSON_parse node (substring ''x{a}'' 1 (3 + 1)) = None
   \<and> processStreamBuffer node (''x{a}'' @ ''{"text":"x"}'')
       = unchanged (''x{a}'' @ ''{"text":"x"}'') True
   \<and> Buffer_toString node (utf8 ''{a}{"text":"x"}'') = ''{a}{"text":"x"}''
   \<and> on_data node (utf8 ''{a}{"text":"x"}'') (init\<lparr>buffer := ''x''\<rparr>)
       = init\<lparr>chunkCount := 1, buffer := ''x{a}{"text":"x"}''\<rparr>\<close>
proof -
  have 1: "indexOf CHR ''{'' ''x{a}'' = Some 1" by code_simp
  have 2: "find_end ''x{a}'' 1 = Some 3" by code_simp
  have 3: "JSON_parse node (substring ''x{a}'' 1 (3 + 1)) = None" by code_simp
  have 4: \<open>Buffer_toString node (utf8 ''{a}{"text":"x"}'') = ''{a}{"text":"x"}''\<close> by code_simp
  show ?thesis
    using 1 2 3 4
      malformed_span_keeps_buffer [OF 1 2 3, of \<open>''{"text":"x"}''\<close>
        \<open>init\<lparr>buffer := ''x''\<rparr>\<close> \<open>utf8 ''{a}{"text":"x"}''\<close>]
    by (simp add: init_def)
qed

text \<open>
  The claim as the specification states it fails on the buffer
  \<^verbatim>\<open>{a}{"text":"x"}\<close>: the span \<^verbatim>\<open>{a}\<close> is balanced and does not parse, the object
  behind it parses, and the decoder returns the whole buffer and surfaces nothing,
  in the call and in the session.
\<close>

theorem malformed_span_counterexample:
  \<open>find_end ''{a}{"text":"x"}'' 0 = Some 2
   \<and> JSON_read ''{a}'' = None
   \<and> JSON_read ''{"text":"x"}'' = Some (JObj [(''text'', JStr ''x'')])
   \<and> processStreamBuffer node ''{a}{"text":"x"}'' = unchanged ''{a}{"text":"x"}'' True
   \<and> decode node [utf8 ''{a}{"text":"x"}''] = []\<close>
  by code_simp

section \<open>tryParseCompleteJSON never throws\<close>

text \<open>
  Claim C10. tryParseCompleteJSON never throws. It returns what \<^verbatim>\<open>JSON.parse\<close>
  returns for the trimmed input when that parse succeeds and \<^verbatim>\<open>null\<close> in every
  other case; the block that would parse the text from the first \<^verbatim>\<open>{\<close> to the last
  \<^verbatim>\<open>}\<close> always ends in a ReferenceError, which is caught. (\<^verbatim>\<open>JSON.parse\<close> of the
  empty text is a SyntaxError.)
\<close>

theorem tryParseCompleteJSON_total:
  assumes "JSON_parse rt [] = None"
  shows "tryParseCompleteJSON rt buf =
           Inr (case JSON_parse rt (trim buf) of None \<Rightarrow> JNull | Some j \<Rightarrow> j)
         \<and> repair rt (catch_scope buf) = Inl ReferenceError"
  using assms
  by (simp add: tryParseCompleteJSON_def try_catch_def read_var_def try_scope_def
      catch_scope_def repair_def parse_or_throw_def split: option.splits)

theorem tryParseCompleteJSON_total_witness:
  \<open>JSON_parse node [] = None
   \<and> JSON_parse node (trim '' x{"a":"b"}y '') = None
   \<and> JSON_parse node ''{"a":"b"}'' = Some (JObj [(''a'', JStr ''b'')])
   \<and> tryParseCompleteJSON node '' x{"a":"b"}y '' = Inr JNull
   \<and> tryParseCompleteJSON node '' {"a":"b"} '' = Inr (JObj [(''a'', JStr ''b'')])\<close>
proof -
  have 1: "JSON_parse node [] = None" by code_simp
  have 2: \<open>JSON_parse node (trim '' x{"a":"b"}y '') = None\<close> by code_simp
  have 3: \<open>JSON_parse node ''{"a":"b"}'' = Some (JObj [(''a'', JStr ''b'')])\<close> by code_simp
  have 4: \<open>JSON_parse node (trim '' {"a":"b"} '') = Some (JObj [(''a'', JStr ''b'')])\<close>
    by code_simp
  show ?thesis
    using 1 2 3 4 tryParseCompleteJSON_total [OF 1, of \<open>'' x{"a":"b"}y ''\<close>]
      tryParseCompleteJSON_total [OF 1, of \<open>'' {"a":"b"} ''\<close>]
    by simp
qed

section \<open>Braces and escaped quotes inside a string\<close>

text \<open>
  Claim C9. The input \<^verbatim>\<open>{"text":"a \"nested\" } brace"}\<close>, fed as one chunk (the
  bytes of the input, which decode to it), is extracted as one whole object: the
  scan ends at the last character, the session surfaces exactly one object and
  leaves an empty buffer, and the \<^verbatim>\<open>text\<close> field of the object is
  \<^verbatim>\<open>a "nested" } brace\<close>.
\<close>

theorem brace_inside_string:
  \<open>find_end nested_input 0 = Some (length nested_input - 1)
   \<and> Buffer_toString node (utf8 nested_input) = nested_input
   \<and> decode node [utf8 nested_input] = [JObj [(''text'', JStr ''a "nested" } brace'')]]
   \<and> buffer (run node [Data (utf8 nested_input)]) = []
   \<and> get_v (JObj [(''text'', JStr ''a "nested" } brace'')]) ''text''
       = Some (JStr ''a "nested" } brace'')\<close>
  by code_simp

section \<open>Feeding a session chunk by chunk\<close>

lemma processStreamBuffer_shrinks:
  "surfaced (processStreamBuffer rt b) = Some j \<Longrightarrow>
   length (remainingBuffer (processStreamBuffer rt b)) < length b"
  using processStreamBuffer_cases [of rt b]
proof
  assume "surfaced (processStreamBuffer rt b) = Some j"
    and "surfaced (processStreamBuffer rt b) = None
      \<and> remainingBuffer (processStreamBuffer rt b) = b
      \<and> extractedText (processStreamBuffer rt b) = []
      \<and> imageTask (processStreamBuffer rt b) = None"
  then show ?thesis by simp
next
  assume "\<exists>startIndex endIndex jsonData processed.
        indexOf CHR ''{'' b = Some startIndex \<and> find_end b startIndex = Some endIndex
        \<and> JSON_parse rt (substring b startIndex (endIndex + 1)) = Some jsonData
        \<and> extractContentFromJSON rt jsonData = Inr processed
        \<and> processStreamBuffer rt b =
            \<lparr>extractedText = content_text processed, remainingBuffer = drop (endIndex + 1) b,
             imageTask = content_imageData processed, surfaced = Some jsonData,
             warned = False\<rparr>"
  then obtain st e j' p where h:
    "indexOf CHR ''{'' b = Some st" "find_end b st = Some e"
    "JSON_parse rt (substring b st (e + 1)) = Some j'"
    "extractContentFromJSON rt j' = Inr p"
    "processStreamBuffer rt b =
        \<lparr>extractedText = content_text p, remainingBuffer = drop (e + 1) b,
         imageTask = content_imageData p, surfaced = Some j', warned = False\<rparr>"
    by blast
  have "st < length b" using indexOf_bounds [OF h(1)] by simp
  then have "e < length b" using find_end_bounds [OF _ h(2)] by simp
  then show ?thesis using h(5) by simp
qed

lemma extract_upto_fuel:
  "length b < n \<Longrightarrow> length b < m \<Longrightarrow> extract_upto n rt b = extract_upto m rt b"
proof (induction n arbitrary: m b)
  case 0
  then show ?case by simp
next
  case (Suc n m b)
  obtain m' where m: "m = Suc m'" using Suc.prems(2) by (cases m) auto
  show ?case
  proof (cases "surfaced (processStreamBuffer rt b)")
    case None
    then show ?thesis by (simp add: m)
  next
    case (Some j)
    have lt: "length (remainingBuffer (processStreamBuffer rt b)) < length b"
      using Some by (rule processStreamBuffer_shrinks)
    have "extract_upto n rt (remainingBuffer (processStreamBuffer rt b))
               = extract_upto m' rt (remainingBuffer (processStreamBuffer rt b))"
    proof (rule Suc.IH)
      show "length (remainingBuffer (processStreamBuffer rt b)) < n"
        using lt Suc.prems(1) by simp
      show "length (remainingBuffer (processStreamBuffer rt b)) < m'"
        using lt Suc.prems(2) m by simp
    qed
    then show ?thesis using Some by (simp add: m)
  qed
qed

lemma extract_all_unfold:
  "extract_all rt b =
     (case surfaced (processStreamBuffer rt b) of
        None \<Rightarrow> []
      | Some j \<Rightarrow> j # extract_all rt (remainingBuffer (processStreamBuffer rt b)))"
proof (cases "surfaced (processStreamBuffer rt b)")
  case None
  then show ?thesis by (simp add: extract_all_def)
next
  case (Some j)
  have "length (remainingBuffer (processStreamBuffer rt b)) < length b"
    using Some by (rule processStreamBuffer_shrinks)
  then have "extract_upto (length b) rt (remainingBuffer (processStreamBuffer rt b))
             = extract_upto (Suc (length (remainingBuffer (processStreamBuffer rt b)))) rt
                 (remainingBuffer (processStreamBuffer rt b))"
    by (intro extract_upto_fuel) simp_all
  then show ?thesis using Some by (simp add: extract_all_def)
qed

lemma processStreamBuffer_append:
  assumes "surfaced (processStreamBuffer rt b) = Some j"
  shows "processStreamBuffer rt (b @ ys) =
         (processStreamBuffer rt b)\<lparr>remainingBuffer := remainingBuffer (processStreamBuffer rt b) @ ys\<rparr>"
proof -
  from processStreamBuffer_cases [of rt b] assms
  obtain st e j' p where h:
    "indexOf CHR ''{'' b = Some st" "find_end b st = Some e"
    "JSON_parse rt (substring b st (e + 1)) = Some j'"
    "extractContentFromJSON rt j' = Inr p"
    "processStreamBuffer rt b =
        \<lparr>extractedText = content_text p, remainingBuffer = drop (e + 1) b,
         imageTask = content_imageData p, surfaced = Some j', warned = False\<rparr>"
    by auto
  have st: "st < length b" using indexOf_bounds [OF h(1)] by simp
  have e: "e < length b" using find_end_bounds [OF _ h(2)] st by simp
  have 1: "indexOf CHR ''{'' (b @ ys) = Some st" using h(1) by (rule indexOf_append)
  have 2: "find_end (b @ ys) st = Some e" using find_end_append [OF _ h(2)] st by simp
  have 3: "substring (b @ ys) st (e + 1) = substring b st (e + 1)"
    using e by (simp add: substring_append)
  have "processStreamBuffer rt (b @ ys) =
        \<lparr>extractedText = (if content_text p \<noteq> [] then content_text p else []),
         remainingBuffer = drop (e + 1) (b @ ys),
         imageTask = content_imageData p, surfaced = Some j', warned = False\<rparr>"
    unfolding processStreamBuffer_def using 1 2 3 h(3,4) by simp
  then show ?thesis using h(5) e by simp
qed

lemma extract_all_append:
  assumes "surfaced (processStreamBuffer rt b) = Some j"
  shows "extract_all rt (b @ ys) = j # extract_all rt (remainingBuffer (processStreamBuffer rt b) @ ys)"
  using processStreamBuffer_append [OF assms, of ys] assms
  by (subst extract_all_unfold) simp

lemma extract_all_None:
  "surfaced (processStreamBuffer rt b) = None \<Longrightarrow> extract_all rt b = []"
  by (subst extract_all_unfold) simp

lemma take1_extract_all:
  "take (Suc 0) (extract_all rt b) = option_list (surfaced (processStreamBuffer rt b))"
  by (subst extract_all_unfold) (simp add: option_list_def split: option.splits)

lemma phase_on_data [simp]: "phase (on_data rt c s) = phase s"
  by (simp add: on_data_def Let_def)

lemma objects_on_data:
  "objects (on_data rt c s)
   = objects s @ option_list (surfaced (processStreamBuffer rt (buffer s @ Buffer_toString rt c)))"
  by (simp add: on_data_def Let_def)

lemma buffer_on_data:
  "buffer (on_data rt c s) = remainingBuffer (processStreamBuffer rt (buffer s @ Buffer_toString rt c))"
  by (simp add: on_data_def Let_def)

lemma on_data_extract_all:
  "objects (on_data rt c s) @ extract_all rt (buffer (on_data rt c s) @ ys)
   = objects s @ extract_all rt (buffer s @ Buffer_toString rt c @ ys)"
proof (cases "surfaced (processStreamBuffer rt (buffer s @ Buffer_toString rt c))")
  case None
  then have "remainingBuffer (processStreamBuffer rt (buffer s @ Buffer_toString rt c))
             = buffer s @ Buffer_toString rt c"
    using processStreamBuffer_cases [of rt "buffer s @ Buffer_toString rt c"] by auto
  then show ?thesis using None by (simp add: objects_on_data buffer_on_data option_list_def)
next
  case (Some j)
  show ?thesis
    using extract_all_append [OF Some, of ys] Some
    by (simp add: objects_on_data buffer_on_data option_list_def)
qed

lemma decoded_Nil [simp]: "decoded rt [] = []"
  by (simp add: decoded_def)

lemma decoded_Cons [simp]: "decoded rt (c # cs) = Buffer_toString rt c @ decoded rt cs"
  by (simp add: decoded_def)

lemma decoded_append [simp]: "decoded rt (cs @ ds) = decoded rt cs @ decoded rt ds"
  by (simp add: decoded_def)

lemma feed_Nil [simp]: "feed rt s [] = s"
  by (simp add: feed_def)

lemma feed_Cons:
  "phase s = Streaming \<Longrightarrow> feed rt s (c # cs) = feed rt (on_data rt c s) cs"
  by (simp add: feed_def)

lemma feed_append: "feed rt s (xs @ ys) = feed rt (feed rt s xs) ys"
  by (simp add: feed_def)

lemma phase_feed: "phase s = Streaming \<Longrightarrow> phase (feed rt s cs) = Streaming"
  by (induction cs arbitrary: s) (simp_all add: feed_Cons)

lemma feed_extract_all:
  "phase s = Streaming \<Longrightarrow>
   objects (feed rt s cs) @ extract_all rt (buffer (feed rt s cs) @ ys)
   = objects s @ extract_all rt (buffer s @ decoded rt cs @ ys)"
proof (induction cs arbitrary: s)
  case Nil
  then show ?case by simp
next
  case (Cons c cs)
  have "objects (feed rt (on_data rt c s) cs) @ extract_all rt (buffer (feed rt (on_data rt c s) cs) @ ys)
        = objects (on_data rt c s) @ extract_all rt (buffer (on_data rt c s) @ decoded rt cs @ ys)"
    using Cons.IH [of "on_data rt c s"] Cons.prems by simp
  also have "\<dots> = objects s @ extract_all rt (buffer s @ Buffer_toString rt c @ decoded rt cs @ ys)"
    by (rule on_data_extract_all)
  finally show ?case using Cons.prems by (simp add: feed_Cons)
qed

lemma trim_empty_no_brace:
  assumes "trim b = []"
  shows "CHR ''{'' \<notin> set b"
proof -
  have all: "\<forall>c \<in> set (dropWhile is_space b). is_space c"
    using assms by (simp add: trim_def)
  have "dropWhile is_space b = []"
  proof (rule ccontr)
    assume ne: "dropWhile is_space b \<noteq> []"
    then have "\<not> is_space (hd (dropWhile is_space b))" by (rule hd_dropWhile)
    moreover have "hd (dropWhile is_space b) \<in> set (dropWhile is_space b)"
      using ne by simp
    ultimately show False using all by blast
  qed
  then have "\<forall>c \<in> set b. is_space c" by (simp only: dropWhile_eq_Nil_conv)
  moreover have "\<not> is_space CHR ''{''" by (simp add: is_space_def)
  ultimately show ?thesis by blast
qed

lemma no_brace_nothing:
  "CHR ''{'' \<notin> set b \<Longrightarrow> surfaced (processStreamBuffer rt b) = None"
  by (simp add: processStreamBuffer_def unchanged_def indexOf_None [symmetric])

lemma objects_finish [simp]: "objects (finish s) = objects s"
  by (simp add: finish_def)

lemma objects_end_pass:
  "objects (end_pass rt s) = objects s @ take 1 (extract_all rt (buffer s))"
  by (simp add: end_pass_def Let_def take1_extract_all)

lemma objects_on_end:
  "objects (on_end rt s) = objects s @ take 1 (extract_all rt (buffer s))"
proof (cases "trim (buffer s) = []")
  case True
  then have "surfaced (processStreamBuffer rt (buffer s)) = None"
    by (simp add: trim_empty_no_brace no_brace_nothing)
  then show ?thesis using True by (simp add: on_end_def extract_all_None)
next
  case False
  then show ?thesis
    by (simp add: on_end_def Let_def objects_end_pass split: sum.splits)
qed

lemma decode_feed: "decode rt cs = objects (on_end rt (feed rt init cs))"
proof -
  have "phase (feed rt init cs) = Streaming" by (rule phase_feed) (simp add: init_def)
  then show ?thesis by (simp add: decode_def run_def feed_def)
qed

lemma decode_extract_all:
  "decode rt cs = objects (feed rt init cs) @ take 1 (extract_all rt (buffer (feed rt init cs)))"
  by (simp add: decode_feed objects_on_end)

lemma feed_init_extract_all:
  "objects (feed rt init cs) @ extract_all rt (buffer (feed rt init cs) @ ys)
   = extract_all rt (decoded rt cs @ ys)"
  using feed_extract_all [of init rt cs ys] by (simp add: init_def)

lemma decode_prefix: "prefix (decode rt cs) (extract_all rt (decoded rt cs))"
proof -
  have "extract_all rt (decoded rt cs)
        = objects (feed rt init cs) @ extract_all rt (buffer (feed rt init cs))"
    using feed_init_extract_all [of rt cs "[]"] by simp
  also have "\<dots> = decode rt cs @ drop 1 (extract_all rt (buffer (feed rt init cs)))"
    by (simp add: decode_extract_all)
  finally show ?thesis by (simp add: prefix_def)
qed

lemma data_then_end:
  "objects (on_end rt (on_data rt c s))
   = objects s @ take 2 (extract_all rt (buffer s @ Buffer_toString rt c))"
proof (cases "surfaced (processStreamBuffer rt (buffer s @ Buffer_toString rt c))")
  case None
  then have "remainingBuffer (processStreamBuffer rt (buffer s @ Buffer_toString rt c))
             = buffer s @ Buffer_toString rt c"
    using processStreamBuffer_cases [of rt "buffer s @ Buffer_toString rt c"] by auto
  moreover have "extract_all rt (buffer s @ Buffer_toString rt c) = []"
    using None by (subst extract_all_unfold) simp
  ultimately show ?thesis
    using None by (simp add: objects_on_end objects_on_data buffer_on_data option_list_def)
next
  case (Some j)
  then have "extract_all rt (buffer s @ Buffer_toString rt c)
             = j # extract_all rt
                     (remainingBuffer (processStreamBuffer rt (buffer s @ Buffer_toString rt c)))"
    by (subst extract_all_unfold) simp
  then show ?thesis
    using Some
    by (simp add: objects_on_end objects_on_data buffer_on_data option_list_def
        numeral_2_eq_2)
qed

lemma decode_single: "decode rt [x] = take 2 (extract_all rt (Buffer_toString rt x))"
proof -
  have "feed rt init [x] = on_data rt x init" by (simp add: feed_Cons init_def)
  then show ?thesis using data_then_end [of rt x init] by (simp add: decode_feed init_def)
qed



lemma extract_all_Nil [simp]: "extract_all rt [] = []"
  by (subst extract_all_unfold) (simp add: no_brace_nothing)

lemma decode_Nil [simp]: "decode rt [] = []"
  by (simp add: decode_extract_all init_def)

lemma ascii_decode:
  "list_all (\<lambda>b. b < 0x80) bs \<Longrightarrow>
   utf8_decode (bs @ cs) = map byte_char bs @ utf8_decode cs"
  by (induction bs) simp_all

lemma ascii_chunks_decoded:
  "list_all (\<lambda>b. b < 0x80) (concat chunks) \<Longrightarrow>
   Buffer_toString node (concat chunks) = decoded node chunks"
proof (induction chunks)
  case Nil
  then show ?case by (simp add: node_def)
next
  case (Cons c cs)
  have c: "list_all (\<lambda>b. b < 0x80) c" and cs: "list_all (\<lambda>b. b < 0x80) (concat cs)"
    using Cons.prems by simp_all
  have "utf8_decode (c @ concat cs) = map byte_char c @ utf8_decode (concat cs)"
    using c by (rule ascii_decode)
  moreover have "utf8_decode (c @ []) = map byte_char c @ utf8_decode []"
    using c by (rule ascii_decode)
  ultimately show ?case using Cons.IH [OF cs] by (simp add: node_def)
qed




section \<open>The scan of a JSON text\<close>

text \<open>
  What the JSON reader accepts as a value, the scanner skips; what it accepts as
  the members of an object up to the closing brace, the scan closes on. So the
  scan of an object text that the reader accepts ends at the closing brace of the
  object, and an accepted text that starts with \<^verbatim>\<open>{\<close>, ends with \<^verbatim>\<open>}\<close> and whose
  content is extracted without an exception is well-formed for the decoder.
\<close>

lemma skips_Nil [simp]: "skips []"
  by (simp add: skips_def)

lemma skips_append: "skips c \<Longrightarrow> skips d \<Longrightarrow> skips (c @ d)"
  by (simp add: skips_def add.assoc)

lemma skips_plain: "plain c \<Longrightarrow> skips [c]"
  by (simp add: skips_def plain_def)

lemma skips_all_plain: "list_all plain cs \<Longrightarrow> skips cs"
proof (induction cs)
  case Nil
  then show ?case by simp
next
  case (Cons c cs)
  then have "skips ([c] @ cs)" by (intro skips_append skips_plain) simp_all
  then show ?case by simp
qed

lemma skips_string: "string_skips c \<Longrightarrow> skips (dquote # c)"
  by (simp add: skips_def string_skips_def dquote_def backslash_def)

lemma closes_brace: "closes [CHR ''}'']"
  by (simp add: closes_def dquote_def backslash_def)

lemma skips_closes: "skips c \<Longrightarrow> closes d \<Longrightarrow> closes (c @ d)"
  by (auto simp: skips_def closes_def add.assoc)

lemma skips_object: "closes c \<Longrightarrow> skips (CHR ''{'' # c)"
  by (auto simp: skips_def closes_def dquote_def backslash_def)

lemma ws_plain: "is_ws c \<Longrightarrow> plain c"
  by (auto simp: is_ws_def plain_def dquote_def backslash_def)

lemma skip_ws_split: "\<exists>w. s = w @ skip_ws s \<and> skips w"
proof -
  have "s = takeWhile is_ws s @ skip_ws s" by (simp add: skip_ws_def)
  moreover have "list_all plain (takeWhile is_ws s)"
    by (metis (mono_tags, lifting) list_all_iff set_takeWhileD ws_plain)
  ultimately show ?thesis using skips_all_plain by blast
qed

lemma string_skips_quote: "string_skips [dquote]"
  by (simp add: string_skips_def dquote_def backslash_def)

lemma string_skips_char:
  "c \<noteq> dquote \<Longrightarrow> c \<noteq> backslash \<Longrightarrow> string_skips d \<Longrightarrow> string_skips (c # d)"
  by (simp add: string_skips_def)

lemma string_skips_escape: "string_skips d \<Longrightarrow> string_skips (backslash # e # d)"
  by (simp add: string_skips_def)

lemma hex_not_special: "hex_val h = Some x \<Longrightarrow> h \<noteq> dquote \<and> h \<noteq> backslash"
proof -
  have "hex_val dquote = None" "hex_val backslash = None" by code_simp+
  then show "hex_val h = Some x \<Longrightarrow> h \<noteq> dquote \<and> h \<noteq> backslash" by auto
qed

lemma read_chars_skips:
  "read_chars acc cs = Some (str, r) \<Longrightarrow> \<exists>c. cs = c @ r \<and> string_skips c"
proof (induction acc cs rule: read_chars.induct)
  case (1 acc)
  then show ?case by simp
next
  case (2 acc c cs)
  show ?case
  proof (cases "c = dquote")
    case True
    then have "c # cs = [dquote] @ r" using "2.prems" by simp
    then show ?thesis using string_skips_quote by blast
  next
    case nq: False
    show ?thesis
    proof (cases "c = backslash")
      case True
      then obtain e rest where cs: "cs = e # rest" using "2.prems" nq by (cases cs) auto
      show ?thesis
      proof (cases "e = CHR ''u''")
        case u: True
        obtain h1 h2 h3 h4 r' where rest: "rest = h1 # h2 # h3 # h4 # r'"
          using "2.prems" nq True cs u by (auto split: list.splits)
        obtain a b c' d where hx: "hex_val h1 = Some a" "hex_val h2 = Some b"
          "hex_val h3 = Some c'" "hex_val h4 = Some d"
          using "2.prems" nq True cs u rest by (auto split: option.splits)
        have ab: "a = 0 \<and> b = 0"
          using "2.prems" nq True cs u rest hx by (auto split: if_splits)
        have rc: "read_chars (char_of (16 * c' + d) # acc) r' = Some (str, r)"
          using "2.prems" nq True cs u rest hx ab by simp
        obtain k where k: "r' = k @ r" "string_skips k"
          using "2.IH"(1) [OF nq True cs u rest refl refl refl refl hx(1) refl hx(2) refl
              hx(3) hx(4) ab rc]
          by auto
        have "string_skips (h1 # h2 # h3 # h4 # k)"
          using hx k(2) hex_not_special by (intro string_skips_char) auto
        then have "string_skips (backslash # e # h1 # h2 # h3 # h4 # k)"
          by (rule string_skips_escape)
        then show ?thesis using True cs rest k(1) by auto
      next
        case nu: False
        obtain x where x: "unescape e = Some x"
          using "2.prems" nq True cs nu by (auto split: option.splits)
        have "read_chars (x # acc) rest = Some (str, r)"
          using "2.prems" nq True cs nu x by simp
        then obtain k where k: "rest = k @ r" "string_skips k"
          using "2.IH"(2) [OF nq True cs nu x] by auto
        have "string_skips (backslash # e # k)" using k(2) by (rule string_skips_escape)
        then show ?thesis using True cs k(1) by auto
      qed
    next
      case nb: False
      have ok: "\<not> of_char c < (0x20 :: nat)"
        using "2.prems" nq nb by (auto split: if_splits)
      have "read_chars (c # acc) cs = Some (str, r)"
        using "2.prems" nq nb ok by simp
      then obtain k where k: "cs = k @ r" "string_skips k"
        using "2.IH"(3) [OF nq nb ok] by auto
      have "string_skips (c # k)" using nq nb k(2) by (rule string_skips_char)
      then show ?thesis using k(1) by auto
    qed
  qed
qed

lemma digit_plain: "is_digit c \<Longrightarrow> plain c"
  by (auto simp: is_digit_def plain_def dquote_def backslash_def)

lemma read_digits_plain:
  "read_digits s = Some (ds, r) \<Longrightarrow> s = ds @ r \<and> list_all plain ds"
proof -
  assume "read_digits s = Some (ds, r)"
  then have d: "ds = takeWhile is_digit s" "r = dropWhile is_digit s"
    by (auto simp: read_digits_def split: if_splits)
  have "list_all plain (takeWhile is_digit s)"
    by (metis (mono_tags, lifting) list_all_iff set_takeWhileD digit_plain)
  then show ?thesis using d by simp
qed

lemma read_sign_plain:
  "set signs \<subseteq> {CHR ''+'', CHR ''-''} \<Longrightarrow>
   s = fst (read_sign signs s) @ snd (read_sign signs s)
   \<and> list_all plain (fst (read_sign signs s))"
  by (auto simp: read_sign_def plain_def dquote_def backslash_def split: list.splits)

lemma read_fraction_plain:
  "read_fraction s = Some (f, r) \<Longrightarrow> s = f @ r \<and> list_all plain f"
  by (auto simp: read_fraction_def plain_def dquote_def backslash_def
      split: list.splits if_splits option.splits dest!: read_digits_plain)

lemma read_exponent_plain:
  assumes "read_exponent s = Some (x, r)"
  shows "s = x @ r \<and> list_all plain x"
proof (cases s)
  case Nil
  then show ?thesis using assms by (simp add: read_exponent_def)
next
  case (Cons c t)
  show ?thesis
  proof (cases "c = CHR ''e'' \<or> c = CHR ''E''")
    case True
    then obtain xs where xs: "read_digits (snd (read_sign ''+-'' t)) = Some (xs, r)"
      "x = c # fst (read_sign ''+-'' t) @ xs"
      using assms Cons by (auto simp: read_exponent_def split: option.splits)
    have 1: "snd (read_sign ''+-'' t) = xs @ r" "list_all plain xs"
      using read_digits_plain [OF xs(1)] by simp_all
    have 2: "t = fst (read_sign ''+-'' t) @ snd (read_sign ''+-'' t)"
      "list_all plain (fst (read_sign ''+-'' t))"
      using read_sign_plain [of "''+-''" t] by simp_all
    have 3: "plain c" using True by (auto simp: plain_def dquote_def backslash_def)
    have "s = x @ r" using Cons xs(2) 1(1) 2(1) by (metis append.assoc append_Cons)
    then show ?thesis using xs(2) 1(2) 2(2) 3 by simp
  next
    case False
    then show ?thesis using assms Cons by (auto simp: read_exponent_def)
  qed
qed

lemma read_number_plain:
  assumes "read_number s = Some (lit, r)"
  shows "s = lit @ r \<and> list_all plain lit"
proof -
  obtain ds s1 where ds: "read_digits (snd (read_sign ''-'' s)) = Some (ds, s1)"
    using assms by (auto simp: read_number_def split: option.splits)
  obtain frac s2 where fr: "read_fraction s1 = Some (frac, s2)"
    using assms ds by (auto simp: read_number_def split: option.splits if_splits)
  obtain ex s3 where ex: "read_exponent s2 = Some (ex, s3)"
    using assms ds fr by (auto simp: read_number_def split: option.splits if_splits)
  have lit: "lit = fst (read_sign ''-'' s) @ ds @ frac @ ex" "r = s3"
    using assms ds fr ex by (auto simp: read_number_def split: option.splits if_splits)
  have 0: "s = fst (read_sign ''-'' s) @ snd (read_sign ''-'' s)"
    "list_all plain (fst (read_sign ''-'' s))"
    using read_sign_plain [of "''-''" s] by simp_all
  have 1: "snd (read_sign ''-'' s) = ds @ s1" "list_all plain ds"
    using read_digits_plain [OF ds] by simp_all
  have 2: "s1 = frac @ s2" "list_all plain frac" using read_fraction_plain [OF fr] by simp_all
  have 3: "s2 = ex @ s3" "list_all plain ex" using read_exponent_plain [OF ex] by simp_all
  have "s = lit @ r" using lit 0(1) 1(1) 2(1) 3(1) by (metis append.assoc)
  then show ?thesis using lit 0(2) 1(2) 2(2) 3(2) by simp
qed

lemma skip_ws_Cons: "skip_ws s = c # cs \<Longrightarrow> \<exists>w. s = w @ c # cs \<and> skips w"
  using skip_ws_split [of s] by auto

lemma plain_punctuation:
  "plain CHR ''[''" "plain CHR '']''" "plain CHR '',''" "plain CHR '':''"
  by (simp_all add: plain_def dquote_def backslash_def)

lemma skips_Cons_plain: "plain c \<Longrightarrow> skips k \<Longrightarrow> skips (c # k)"
  using skips_append [OF skips_plain, of c k] by simp

lemma literal_plain:
  "list_all plain ''true''" "list_all plain ''false''" "list_all plain ''null''"
  by (simp_all add: plain_def dquote_def backslash_def)

lemma value_step:
  assumes "elements_skip n" and "members_close n"
  shows "value_skips (Suc n)"
  unfolding value_skips_def
proof (intro allI impI)
  fix s v r
  assume rd: "read_value (Suc n) s = Some (v, r)"
  then obtain c cs where sk: "skip_ws s = c # cs" by (cases "skip_ws s") auto
  then obtain w where w: "s = w @ c # cs" "skips w" using skip_ws_Cons by blast
  have "\<exists>k. c # cs = k @ r \<and> skips k"
  proof (cases "c = CHR ''{''")
    case True
    obtain x r0 where sk2: "skip_ws cs = x # r0"
      using rd sk True by (cases "skip_ws cs") auto
    then obtain w2 where w2: "cs = w2 @ x # r0" "skips w2" using skip_ws_Cons by blast
    show ?thesis
    proof (cases "x = CHR ''}''")
      case x: True
      then have "r = r0" using rd sk True sk2 by simp
      moreover have "closes (w2 @ [CHR ''}''])" using w2(2) closes_brace by (rule skips_closes)
      then have "skips (CHR ''{'' # w2 @ [CHR ''}''])" by (rule skips_object)
      ultimately show ?thesis using True x w2(1) by (intro exI [of _ "CHR ''{'' # w2 @ [CHR ''}'']"]) simp
    next
      case False
      then have "read_members n [] cs = Some (v, r)" using rd sk True sk2 by simp
      then obtain k where k: "cs = k @ r" "closes k"
        using assms(2) unfolding members_close_def by blast
      have "skips (CHR ''{'' # k)" using k(2) by (rule skips_object)
      then show ?thesis using True k(1) by (intro exI [of _ "CHR ''{'' # k"]) simp
    qed
  next
    case nb: False
    show ?thesis
    proof (cases "c = CHR ''[''")
      case True
      obtain x r0 where sk2: "skip_ws cs = x # r0"
        using rd sk nb True by (cases "skip_ws cs") auto
      then obtain w2 where w2: "cs = w2 @ x # r0" "skips w2" using skip_ws_Cons by blast
      show ?thesis
      proof (cases "x = CHR '']''")
        case x: True
        then have "r = r0" using rd sk True sk2 by simp
        moreover have "skips (CHR ''['' # w2 @ [CHR '']''])"
          using w2(2) by (intro skips_Cons_plain skips_append skips_plain plain_punctuation)
        ultimately show ?thesis
          using True x w2(1) by (intro exI [of _ "CHR ''['' # w2 @ [CHR '']'']"]) simp
      next
        case False
        then have "read_elements n [] cs = Some (v, r)" using rd sk True sk2 by simp
        then obtain k where k: "cs = k @ r" "skips k"
          using assms(1) unfolding elements_skip_def by blast
        have "skips (CHR ''['' # k)" using k(2) by (intro skips_Cons_plain plain_punctuation)
        then show ?thesis using True k(1) by (intro exI [of _ "CHR ''['' # k"]) simp
      qed
    next
      case na: False
      show ?thesis
      proof (cases "c = dquote")
        case True
        then obtain str where "read_chars [] cs = Some (str, r)"
          using rd sk nb na by (auto split: option.splits)
        then obtain k where k: "cs = k @ r" "string_skips k" using read_chars_skips by blast
        have "skips (dquote # k)" using k(2) by (rule skips_string)
        then show ?thesis using True k(1) by (intro exI [of _ "dquote # k"]) simp
      next
        case nq: False
        show ?thesis
        proof (cases "take 4 (c # cs) = ''true''")
          case True
          then have "r = drop 4 (c # cs)" using rd sk nb na nq by simp
          then have "c # cs = ''true'' @ r" using True by (metis append_take_drop_id)
          then show ?thesis using literal_plain(1) skips_all_plain by blast
        next
          case nt: False
          show ?thesis
          proof (cases "take 5 (c # cs) = ''false''")
            case True
            then have "r = drop 5 (c # cs)" using rd sk nb na nq nt by simp
            then have "c # cs = ''false'' @ r" using True by (metis append_take_drop_id)
            then show ?thesis using literal_plain(2) skips_all_plain by blast
          next
            case nf: False
            show ?thesis
            proof (cases "take 4 (c # cs) = ''null''")
              case True
              then have "r = drop 4 (c # cs)" using rd sk nb na nq nt nf by simp
              then have "c # cs = ''null'' @ r" using True by (metis append_take_drop_id)
              then show ?thesis using literal_plain(3) skips_all_plain by blast
            next
              case False
              then obtain lit where "read_number (c # cs) = Some (lit, r)"
                using rd sk nb na nq nt nf by (auto split: option.splits)
              then have "c # cs = lit @ r \<and> list_all plain lit" by (rule read_number_plain)
              then show ?thesis using skips_all_plain by blast
            qed
          qed
        qed
      qed
    qed
  qed
  then obtain k where k: "c # cs = k @ r" "skips k" by blast
  have "s = (w @ k) @ r" using w(1) k(1) by simp
  moreover have "skips (w @ k)" using w(2) k(2) by (rule skips_append)
  ultimately show "\<exists>c. s = c @ r \<and> skips c" by blast
qed

lemma elements_step:
  assumes "value_skips n" and "elements_skip n"
  shows "elements_skip (Suc n)"
  unfolding elements_skip_def
proof (intro allI impI)
  fix acc s v r
  assume rd: "read_elements (Suc n) acc s = Some (v, r)"
  then obtain v1 r1 where v1: "read_value n s = Some (v1, r1)"
    by (auto split: option.splits)
  then obtain k1 where k1: "s = k1 @ r1" "skips k1"
    using assms(1) unfolding value_skips_def by blast
  obtain x r' where sk: "skip_ws r1 = x # r'"
    using rd v1 by (cases "skip_ws r1") auto
  then obtain w where w: "r1 = w @ x # r'" "skips w" using skip_ws_Cons by blast
  have "\<exists>k. x # r' = k @ r \<and> skips k"
  proof (cases "x = CHR '',''")
    case True
    then have "read_elements n (v1 # acc) r' = Some (v, r)" using rd v1 sk by simp
    then obtain k2 where k2: "r' = k2 @ r" "skips k2"
      using assms(2) unfolding elements_skip_def by blast
    have "skips (CHR '','' # k2)" using k2(2) by (intro skips_Cons_plain plain_punctuation)
    then show ?thesis using True k2(1) by (intro exI [of _ "CHR '','' # k2"]) simp
  next
    case False
    then have x: "x = CHR '']''" "r = r'"
      using rd v1 sk by (auto split: if_splits)
    have "skips [CHR '']'']" by (intro skips_plain plain_punctuation)
    then show ?thesis using x by (intro exI [of _ "[CHR '']'']"]) simp
  qed
  then obtain k where k: "x # r' = k @ r" "skips k" by blast
  have "s = (k1 @ w @ k) @ r" using k1(1) w(1) k(1) by simp
  moreover have "skips (k1 @ w @ k)" using k1(2) w(2) k(2) by (intro skips_append)
  ultimately show "\<exists>c. s = c @ r \<and> skips c" by blast
qed

lemma members_step:
  assumes "value_skips n" and "members_close n"
  shows "members_close (Suc n)"
  unfolding members_close_def
proof (intro allI impI)
  fix acc s v r
  assume rd: "read_members (Suc n) acc s = Some (v, r)"
  then obtain q r0 where sk: "skip_ws s = q # r0" by (cases "skip_ws s") auto
  then obtain w where w: "s = w @ q # r0" "skips w" using skip_ws_Cons by blast
  have q: "q = dquote" using rd sk by (auto split: if_splits)
  obtain key r1 where key: "read_chars [] r0 = Some (key, r1)"
    using rd sk q by (auto split: option.splits)
  then obtain ks where ks: "r0 = ks @ r1" "string_skips ks" using read_chars_skips by blast
  obtain x r2 where sk1: "skip_ws r1 = x # r2"
    using rd sk q key by (cases "skip_ws r1") auto
  then obtain w1 where w1: "r1 = w1 @ x # r2" "skips w1" using skip_ws_Cons by blast
  have x: "x = CHR '':''" using rd sk q key sk1 by (auto split: if_splits)
  obtain v1 r3 where v1: "read_value n r2 = Some (v1, r3)"
    using rd sk q key sk1 x by (auto split: option.splits)
  then obtain k1 where k1: "r2 = k1 @ r3" "skips k1"
    using assms(1) unfolding value_skips_def by blast
  obtain y r4 where sk3: "skip_ws r3 = y # r4"
    using rd sk q key sk1 x v1 by (cases "skip_ws r3") auto
  then obtain w3 where w3: "r3 = w3 @ y # r4" "skips w3" using skip_ws_Cons by blast
  have "\<exists>k. y # r4 = k @ r \<and> closes k"
  proof (cases "y = CHR '',''")
    case True
    then have "read_members n (put key v1 acc) r4 = Some (v, r)"
      using rd sk q key sk1 x v1 sk3 by simp
    then obtain k2 where k2: "r4 = k2 @ r" "closes k2"
      using assms(2) unfolding members_close_def by blast
    have "closes ([CHR '',''] @ k2)"
      using k2(2) by (intro skips_closes skips_plain plain_punctuation)
    then show ?thesis using True k2(1) by (intro exI [of _ "CHR '','' # k2"]) simp
  next
    case False
    then have y: "y = CHR ''}''" "r = r4"
      using rd sk q key sk1 x v1 sk3 by (auto split: if_splits)
    show ?thesis using y closes_brace by (intro exI [of _ "[CHR ''}'']"]) simp
  qed
  then obtain k where k: "y # r4 = k @ r" "closes k" by blast
  let ?pre = "w @ (dquote # ks) @ w1 @ [CHR '':''] @ k1 @ w3"
  have "s = (?pre @ k) @ r" using w(1) q ks(1) w1(1) x k1(1) w3(1) k(1) by simp
  moreover have "skips ?pre"
    using w(2) ks(2) w1(2) k1(2) w3(2)
    by (intro skips_append skips_string skips_plain plain_punctuation)
  then have "closes (?pre @ k)" using k(2) by (rule skips_closes)
  ultimately show "\<exists>c. s = c @ r \<and> closes c" by blast
qed

lemma reader_skips: "value_skips n \<and> elements_skip n \<and> members_close n"
proof (induction n)
  case 0
  show ?case by (simp add: value_skips_def elements_skip_def members_close_def)
next
  case (Suc n)
  then show ?case using value_step elements_step members_step by blast
qed

lemma object_text_closes:
  assumes "read_value n (CHR ''{'' # cs) = Some (v, r)"
  shows "\<exists>k. cs = k @ r \<and> closes k"
proof -
  obtain m where n: "n = Suc m" using assms by (cases n) auto
  have nw: "\<not> is_ws CHR ''{''" by (simp add: is_ws_def)
  then have sk: "skip_ws (CHR ''{'' # cs) = CHR ''{'' # cs" by (simp add: skip_ws_def)
  obtain x r0 where sk2: "skip_ws cs = x # r0"
    using assms n sk by (cases "skip_ws cs") auto
  then obtain w2 where w2: "cs = w2 @ x # r0" "skips w2" using skip_ws_Cons by blast
  show ?thesis
  proof (cases "x = CHR ''}''")
    case True
    then have "r = r0" using assms n sk sk2 by simp
    moreover have "closes (w2 @ [CHR ''}''])" using w2(2) closes_brace by (rule skips_closes)
    ultimately show ?thesis using True w2(1) by (intro exI [of _ "w2 @ [CHR ''}'']"]) simp
  next
    case False
    then have "read_members m [] cs = Some (v, r)" using assms n sk sk2 by simp
    then show ?thesis using reader_skips [of m] unfolding members_close_def by blast
  qed
qed

lemma skip_ws_Nil_last:
  assumes "skip_ws r = []" and "r \<noteq> []"
  shows "is_ws (last r)"
proof -
  have "\<forall>c \<in> set r. is_ws c"
    using assms(1) unfolding skip_ws_def by (simp only: dropWhile_eq_Nil_conv)
  then show ?thesis using assms(2) by simp
qed

lemma json_object_scan:
  assumes "JSON_read (CHR ''{'' # cs) = Some j" and "last (CHR ''{'' # cs) = CHR ''}''"
  shows "find_end (CHR ''{'' # cs) 0 = Some (length (CHR ''{'' # cs) - 1)"
proof -
  obtain r where rd: "read_value (2 * length (CHR ''{'' # cs) + 2) (CHR ''{'' # cs) = Some (j, r)"
    and r: "skip_ws r = []"
    using assms(1) by (auto simp: JSON_read_def split: option.splits if_splits)
  obtain k where k: "cs = k @ r" "closes k" using object_text_closes [OF rd] by blast
  have "r = []"
  proof (rule ccontr)
    assume ne: "r \<noteq> []"
    then have "is_ws (last r)" using r skip_ws_Nil_last by blast
    moreover have "last r = CHR ''}''" using assms(2) k(1) ne by simp
    ultimately show False by (simp add: is_ws_def)
  qed
  then have cs: "cs = k" using k(1) by simp
  have "scan (0 + 1) False False 1 (k @ []) = Some (1 + length k - 1)"
    using k(2) unfolding closes_def by (metis order_refl)
  then show ?thesis
    by (simp add: find_end_def cs dquote_def backslash_def)
qed

lemma JSON_parse_node: "JSON_parse node = JSON_read"
  by (simp add: node_def)

lemma json_object_well_formed:
  assumes "JSON_read (CHR ''{'' # cs) = Some j"
    and "last (CHR ''{'' # cs) = CHR ''}''"
    and "extractContentFromJSON node j = Inr c"
  shows "well_formed node (CHR ''{'' # cs)"
proof -
  have "find_end (CHR ''{'' # cs) 0 = Some (length (CHR ''{'' # cs) - 1)"
    using assms(1,2) by (rule json_object_scan)
  then show ?thesis
    using assms(1,3) unfolding well_formed_def JSON_parse_node by simp
qed

section \<open>Well-formed objects, one after the other\<close>

lemma well_formed_nonempty: "well_formed rt obj \<Longrightarrow> obj \<noteq> []"
  by (auto simp: well_formed_def)

lemma processStreamBuffer_well_formed:
  assumes "well_formed rt obj"
  shows "surfaced (processStreamBuffer rt (obj @ ys)) = Some (parsed rt obj)
         \<and> remainingBuffer (processStreamBuffer rt (obj @ ys)) = ys"
proof -
  have ne: "obj \<noteq> []" using assms by (rule well_formed_nonempty)
  have 1: "indexOf CHR ''{'' (obj @ ys) = Some 0"
    using assms by (simp add: well_formed_def indexOf_append)
  have 2: "find_end (obj @ ys) 0 = Some (length obj - 1)"
    using assms find_end_append [of 0 obj "length obj - 1" ys] by (simp add: well_formed_def)
  have 3: "substring (obj @ ys) 0 (length obj - 1 + 1) = obj"
    using ne by (simp add: substring_def)
  have 4: "drop (length obj - 1 + 1) (obj @ ys) = ys" using ne by simp
  obtain j c where j: "JSON_parse rt obj = Some j" "extractContentFromJSON rt j = Inr c"
    using assms by (auto simp: well_formed_def split: option.splits sum.splits)
  show ?thesis
    unfolding processStreamBuffer_def using 1 2 3 4 j by (simp add: parsed_def)
qed

lemma extract_all_well_formed:
  "\<forall>obj \<in> set objs. well_formed rt obj \<Longrightarrow>
   extract_all rt (concat objs @ ys) = map (parsed rt) objs @ extract_all rt ys"
proof (induction objs)
  case Nil
  then show ?case by simp
next
  case (Cons obj objs)
  have wf: "well_formed rt obj" using Cons.prems by simp
  have "extract_all rt (obj @ concat objs @ ys) = parsed rt obj # extract_all rt (concat objs @ ys)"
    using processStreamBuffer_well_formed [OF wf, of "concat objs @ ys"]
    by (subst extract_all_unfold) simp
  then show ?case using Cons by simp
qed

lemma proper_prefix_nothing:
  assumes "well_formed rt (p @ q)" and "q \<noteq> []"
  shows "surfaced (processStreamBuffer rt p) = None"
proof (rule ccontr)
  assume "surfaced (processStreamBuffer rt p) \<noteq> None"
  then obtain j where j: "surfaced (processStreamBuffer rt p) = Some j" by auto
  from processStreamBuffer_cases [of rt p] j
  obtain st e j' c where h:
    "indexOf CHR ''{'' p = Some st" "find_end p st = Some e"
    "JSON_parse rt (substring p st (e + 1)) = Some j'"
    "extractContentFromJSON rt j' = Inr c"
    "processStreamBuffer rt p =
        \<lparr>extractedText = content_text c, remainingBuffer = drop (e + 1) p,
         imageTask = content_imageData c, surfaced = Some j', warned = False\<rparr>"
    by auto
  have st: "st < length p" using indexOf_bounds [OF h(1)] by simp
  have e: "e < length p" using find_end_bounds [OF _ h(2)] st by simp
  have "indexOf CHR ''{'' (p @ q) = Some st" using h(1) by (rule indexOf_append)
  then have "st = 0" using assms(1) by (simp add: well_formed_def)
  then have "find_end (p @ q) 0 = Some e" using find_end_append [OF _ h(2), of q] by simp
  then have "e = length (p @ q) - 1" using assms(1) by (simp add: well_formed_def)
  then show False using e assms(2) by (cases q) simp_all
qed

lemma feed_units_of_object:
  assumes "well_formed rt (p @ q)" and "phase s = Streaming" and "buffer s = p" and "q \<noteq> []"
    and "map (Buffer_toString rt) chunks = map (\<lambda>c. [c]) q"
  shows "buffer (feed rt s chunks) = []
         \<and> objects (feed rt s chunks) = objects s @ [parsed rt (p @ q)]"
  using assms
proof (induction q arbitrary: p s chunks)
  case Nil
  then show ?case by simp
next
  case (Cons c q)
  obtain ch chs where chunks: "chunks = ch # chs" "Buffer_toString rt ch = [c]"
    "map (Buffer_toString rt) chs = map (\<lambda>c. [c]) q"
    using Cons.prems(5) by (cases chunks) auto
  show ?case
  proof (cases "q = []")
    case True
    have "surfaced (processStreamBuffer rt (p @ [c])) = Some (parsed rt (p @ [c]))
          \<and> remainingBuffer (processStreamBuffer rt (p @ [c])) = []"
      using processStreamBuffer_well_formed [of rt "p @ [c]" "[]"] Cons.prems(1) True by simp
    then show ?thesis
      using True Cons.prems(2,3) chunks
      by (simp add: feed_Cons objects_on_data buffer_on_data option_list_def)
  next
    case False
    have wf: "well_formed rt ((p @ [c]) @ q)" using Cons.prems(1) by simp
    have none: "surfaced (processStreamBuffer rt (p @ [c])) = None"
      using proper_prefix_nothing [OF wf False] .
    then have rem: "remainingBuffer (processStreamBuffer rt (p @ [c])) = p @ [c]"
      using processStreamBuffer_cases [of rt "p @ [c]"] by auto
    have b: "buffer (on_data rt ch s) = p @ [c]" and o: "objects (on_data rt ch s) = objects s"
      using none rem Cons.prems(3) chunks(2)
      by (simp_all add: objects_on_data buffer_on_data option_list_def)
    have ph: "phase (on_data rt ch s) = Streaming" using Cons.prems(2) by simp
    show ?thesis
      using Cons.IH [OF wf ph b False chunks(3)] Cons.prems(2) chunks(1) o
      by (simp add: feed_Cons)
  qed
qed

lemma feed_units_of_objects:
  assumes "\<forall>obj \<in> set objs. well_formed rt obj" and "phase s = Streaming" and "buffer s = []"
    and "map (Buffer_toString rt) chunks = map (\<lambda>c. [c]) (concat objs)"
  shows "buffer (feed rt s chunks) = []
         \<and> objects (feed rt s chunks) = objects s @ map (parsed rt) objs"
  using assms
proof (induction objs arbitrary: s chunks)
  case Nil
  then show ?case by simp
next
  case (Cons obj objs)
  let ?n = "length obj"
  let ?s1 = "feed rt s (take ?n chunks)"
  have wf: "well_formed rt ([] @ obj)" using Cons.prems(1) by simp
  have ne: "obj \<noteq> []" using Cons.prems(1) well_formed_nonempty by auto
  have "take ?n (map (Buffer_toString rt) chunks)
        = take ?n (map (\<lambda>c. [c]) (concat (obj # objs)))"
    using Cons.prems(4) by (rule arg_cong)
  then have t: "map (Buffer_toString rt) (take ?n chunks) = map (\<lambda>c. [c]) obj"
    by (simp add: take_map)
  have "drop ?n (map (Buffer_toString rt) chunks)
        = drop ?n (map (\<lambda>c. [c]) (concat (obj # objs)))"
    using Cons.prems(4) by (rule arg_cong)
  then have d: "map (Buffer_toString rt) (drop ?n chunks) = map (\<lambda>c. [c]) (concat objs)"
    by (simp add: drop_map)
  have 1: "buffer ?s1 = [] \<and> objects ?s1 = objects s @ [parsed rt obj]"
    using feed_units_of_object [OF wf Cons.prems(2) _ ne t] Cons.prems(3) by simp
  have 2: "phase ?s1 = Streaming" using Cons.prems(2) by (rule phase_feed)
  have "feed rt s chunks = feed rt ?s1 (drop ?n chunks)"
    using feed_append [of rt s "take ?n chunks" "drop ?n chunks"] by simp
  then show ?case using Cons.IH [of ?s1 "drop ?n chunks"] Cons.prems(1) 1 2 d by simp
qed

lemma feed_objects_as_chunks:
  assumes "\<forall>obj \<in> set objs. well_formed rt obj" and "phase s = Streaming" and "buffer s = []"
    and "map (Buffer_toString rt) chunks = objs"
  shows "buffer (feed rt s chunks) = []
         \<and> objects (feed rt s chunks) = objects s @ map (parsed rt) objs"
  using assms
proof (induction objs arbitrary: s chunks)
  case Nil
  then show ?case by simp
next
  case (Cons obj objs)
  obtain ch chs where chunks: "chunks = ch # chs" "Buffer_toString rt ch = obj"
    "map (Buffer_toString rt) chs = objs"
    using Cons.prems(4) by (cases chunks) auto
  have wf: "well_formed rt obj" using Cons.prems(1) by simp
  have 1: "buffer (on_data rt ch s) = [] \<and> objects (on_data rt ch s) = objects s @ [parsed rt obj]"
    using processStreamBuffer_well_formed [OF wf, of "[]"] Cons.prems(3) chunks(2)
    by (simp add: objects_on_data buffer_on_data option_list_def)
  show ?case
    using Cons.IH [of "on_data rt ch s" chs] Cons.prems(1,2) 1 chunks(1,3)
    by (simp add: feed_Cons)
qed

lemma ascii_bytes_decoded:
  "list_all (\<lambda>b. b < 0x80) bs \<Longrightarrow>
   map (Buffer_toString node) (map (\<lambda>b. [b]) bs) = map (\<lambda>c. [c]) (Buffer_toString node bs)"
proof (induction bs)
  case Nil
  then show ?case by (simp add: node_def)
next
  case (Cons b bs)
  then show ?case by (simp add: node_def)
qed

text \<open>
  Claim C5, as the code has it. For \<open>N\<close> well-formed objects with nothing between
  them: fed in chunks that each decode to one character of the input (so it is
  for the 1-byte chunks of an input of bytes below 0x80: \<open>ascii_bytes_decoded\<close>),
  or one object per chunk, the session surfaces exactly the \<open>N\<close> objects; fed as a
  single chunk it surfaces the first two of them (all of them when \<open>N \<le> 2\<close>); and
  under every other split into chunks whose texts, one after the other, are the
  input, it surfaces a prefix of the \<open>N\<close> objects, never another object and never
  more. (With the reader of this theory, every object text without white space
  around it that the reader accepts and whose content is extracted without an
  exception is well-formed: \<open>json_object_well_formed\<close>.)
\<close>

theorem well_formed_objects_decoded:
  assumes "\<forall>obj \<in> set objs. well_formed rt obj"
  shows "(map (Buffer_toString rt) units = map (\<lambda>c. [c]) (concat objs)
            \<longrightarrow> decode rt units = map (parsed rt) objs)
       \<and> (map (Buffer_toString rt) per_object = objs
            \<longrightarrow> decode rt per_object = map (parsed rt) objs)
       \<and> (Buffer_toString rt whole = concat objs
            \<longrightarrow> decode rt [whole] = take 2 (map (parsed rt) objs))
       \<and> (decoded rt chunks = concat objs
            \<longrightarrow> prefix (decode rt chunks) (map (parsed rt) objs))"
proof -
  have all: "extract_all rt (concat objs) = map (parsed rt) objs"
    using extract_all_well_formed [OF assms, of "[]"] by simp
  have i: "phase init = Streaming" "buffer init = []" "objects init = []"
    by (simp_all add: init_def)
  have 1: "decode rt units = map (parsed rt) objs"
    if "map (Buffer_toString rt) units = map (\<lambda>c. [c]) (concat objs)"
    using feed_units_of_objects [OF assms i(1,2) that] i(3) by (simp add: decode_extract_all)
  have 2: "decode rt per_object = map (parsed rt) objs"
    if "map (Buffer_toString rt) per_object = objs"
    using feed_objects_as_chunks [OF assms i(1,2) that] i(3) by (simp add: decode_extract_all)
  have 3: "decode rt [whole] = take 2 (map (parsed rt) objs)"
    if "Buffer_toString rt whole = concat objs"
    using that by (simp add: decode_single all)
  have 4: "prefix (decode rt chunks) (map (parsed rt) objs)"
    if "decoded rt chunks = concat objs"
    using decode_prefix [of rt chunks] all that by simp
  show ?thesis using 1 2 3 4 by blast
qed

theorem well_formed_objects_decoded_witness:
  \<open>well_formed node ''{"a":"1"}'' \<and> well_formed node ''{"b":[2]}''
   \<and> well_formed node ''{"c":{}}''
   \<and> decode node (map (\<lambda>b. [b]) (utf8 ''{"a":"1"}{"b":[2]}{"c":{}}''))
       = [JObj [(''a'', JStr ''1'')], JObj [(''b'', JArr [JNum ''2''])], JObj [(''c'', JObj [])]]
   \<and> decode node [utf8 ''{"a":"1"}'', utf8 ''{"b":[2]}'', utf8 ''{"c":{}}'']
       = [JObj [(''a'', JStr ''1'')], JObj [(''b'', JArr [JNum ''2''])], JObj [(''c'', JObj [])]]
   \<and> decode node [utf8 ''{"a":"1"}{"b":[2]}{"c":{}}'']
       = [JObj [(''a'', JStr ''1'')], JObj [(''b'', JArr [JNum ''2''])]]
   \<and> prefix (decode node [utf8 ''{"a":"1"}{"b"'', utf8 '':[2]}{"c":{}}''])
       [JObj [(''a'', JStr ''1'')], JObj [(''b'', JArr [JNum ''2''])], JObj [(''c'', JObj [])]]\<close>
proof -
  let ?objs = \<open>[''{"a":"1"}'', ''{"b":[2]}'', ''{"c":{}}'']\<close>
  let ?units = \<open>map (\<lambda>b. [b]) (utf8 ''{"a":"1"}{"b":[2]}{"c":{}}'')\<close>
  let ?per_object = \<open>[utf8 ''{"a":"1"}'', utf8 ''{"b":[2]}'', utf8 ''{"c":{}}'']\<close>
  let ?whole = \<open>utf8 ''{"a":"1"}{"b":[2]}{"c":{}}''\<close>
  let ?chunks = \<open>[utf8 ''{"a":"1"}{"b"'', utf8 '':[2]}{"c":{}}'']\<close>
  have wf: "\<forall>obj \<in> set ?objs. well_formed node obj" by code_simp
  have p: \<open>map (parsed node) ?objs
      = [JObj [(''a'', JStr ''1'')], JObj [(''b'', JArr [JNum ''2''])], JObj [(''c'', JObj [])]]\<close>
    by code_simp
  have u: "map (Buffer_toString node) ?units = map (\<lambda>c. [c]) (concat ?objs)" by code_simp
  have o: "map (Buffer_toString node) ?per_object = ?objs" by code_simp
  have w: "Buffer_toString node ?whole = concat ?objs" by code_simp
  have c: "decoded node ?chunks = concat ?objs" by code_simp
  show ?thesis
    using wf u o w c
      well_formed_objects_decoded [OF wf, of ?units ?per_object ?whole ?chunks]
    unfolding p by simp
qed

text \<open>
  The count is not \<open>N\<close> for every chunking: three well-formed objects in a single
  chunk yield two parsed objects.
\<close>

theorem single_chunk_counterexample:
  \<open>well_formed node ''{"p":"1"}'' \<and> well_formed node ''{"q":"2"}''
   \<and> well_formed node ''{"r":"3"}''
   \<and> decode node [utf8 ''{"p":"1"}{"q":"2"}{"r":"3"}'']
       = [JObj [(''p'', JStr ''1'')], JObj [(''q'', JStr ''2'')]]\<close>
  by code_simp

section \<open>The content of a shaped object\<close>

lemma after_parts_Nil [simp]: "after_parts result [] = result"
  by (simp add: after_parts_def last_image_def)









lemma is_part_part_json: "is_part p (part_json p)"
  by (cases p) (simp_all add: get_v_def)

lemma is_shaped_shaped_json: "is_shaped candidates (shaped_json candidates)"
  by (simp add: is_shaped_def shaped_json_def get_v_def is_candidate_def candidate_json_def
      list_all2_map2 list_all2_same is_part_part_json)




section \<open>The completion event\<close>

lemma keys_cover_init: "keys_cover init"
  by (simp add: keys_cover_def due_def init_def)

lemma stored_update:
  "i < length ts \<Longrightarrow>
   sum_list (map stored (ts[i := t])) + stored (ts ! i) = sum_list (map stored ts) + stored t"
proof (induction ts arbitrary: i)
  case Nil
  then show ?case by simp
next
  case (Cons a ts)
  then show ?case by (cases i) auto
qed

lemma keys_cover_finish: "keys_cover s \<Longrightarrow> keys_cover (finish s)"
  by (simp add: keys_cover_def due_def finish_def is_image_def)

lemma keys_cover_on_data: "keys_cover s \<Longrightarrow> keys_cover (on_data rt chunk s)"
  by (simp add: keys_cover_def due_def on_data_def Let_def is_image_def stored_def option_list_def
      split: option.splits)

lemma keys_cover_end_pass: "keys_cover s \<Longrightarrow> keys_cover (end_pass rt s)"
  by (simp add: keys_cover_def due_def end_pass_def Let_def is_image_def stored_def option_list_def
      split: option.splits)

lemma keys_cover_phase [simp]: "keys_cover (s\<lparr>phase := p\<rparr>) = keys_cover s"
  by (simp add: keys_cover_def due_def)

lemma keys_cover_on_end: "keys_cover s \<Longrightarrow> keys_cover (on_end rt s)"
  by (simp add: on_end_def Let_def keys_cover_end_pass keys_cover_finish split: sum.splits)

lemma keys_cover_on_settled: "keys_cover s \<Longrightarrow> keys_cover (on_settled i saved s)"
  using stored_update [of i "tasks s"]
  by (auto simp: keys_cover_def due_def on_settled_def is_image_def stored_def
      split: task.splits sum.splits)

lemma keys_cover_on_then: "keys_cover s \<Longrightarrow> keys_cover (on_then i s)"
  using stored_update [of i "tasks s" Reported]
  by (auto simp: keys_cover_def due_def on_then_def is_image_def stored_def split: task.splits)

lemma keys_cover_on_awaited: "keys_cover s \<Longrightarrow> keys_cover (on_awaited saved s)"
  by (auto simp: keys_cover_def due_def on_awaited_def split: phase.splits list.splits sum.splits)

lemma keys_cover_on_resumed: "keys_cover s \<Longrightarrow> keys_cover (on_resumed s)"
proof (cases "phase s")
  case (Finalizing t handled todo)
  assume k: "keys_cover s"
  show ?thesis
  proof (cases todo)
    case Nil
    have "keys_cover (s\<lparr>events := events s @
            [CompleteEvent \<lparr>complete_text = t, complete_images = handled\<rparr> (chunkCount s)]\<rparr>)"
      using k by (simp add: keys_cover_def due_def is_image_def)
    then show ?thesis using Finalizing Nil by (simp add: on_resumed_def keys_cover_finish)
  next
    case (Cons a list)
    then show ?thesis using k Finalizing by (simp add: on_resumed_def)
  qed
qed (simp_all add: on_resumed_def)

lemma keys_cover_step: "keys_cover s \<Longrightarrow> keys_cover (step rt s a)"
  by (cases a)
    (simp_all add: keys_cover_on_data keys_cover_on_end keys_cover_on_settled
      keys_cover_on_then keys_cover_on_awaited keys_cover_on_resumed)

lemma keys_cover_run: "keys_cover (run rt actions)"
proof -
  have "keys_cover s \<Longrightarrow> keys_cover (foldl (step rt) s actions)" for s
    by (induction actions arbitrary: s) (simp_all add: keys_cover_step)
  then show ?thesis using keys_cover_init by (simp add: run_def)
qed

text \<open>The step that resolves the session emits the completion event.\<close>

lemma end_pass_fields:
  "cacheKeys (end_pass rt s) = cacheKeys s \<and> chunkCount (end_pass rt s) = chunkCount s
   \<and> phase (end_pass rt s) = phase s
   \<and> (\<exists>emitted. events (end_pass rt s) = events s @ emitted \<and> list_all is_end_event emitted)"
  by (simp add: end_pass_def Let_def is_end_event_def)

lemma finish_after:
  assumes "events s1 = events s @ emitted" and "list_all is_end_event emitted"
    and "cacheKeys s1 = cacheKeys s" and "chunkCount s1 = chunkCount s"
  shows "\<exists>emitted'.
           events (finish s1) =
             events s @ emitted'
             @ [CompletionEvent True (chunkCount s) (length (responseText (finish s1)))
                  (length (cacheKeys s))]
         \<and> list_all is_end_event emitted'
         \<and> cacheKeys (finish s1) = cacheKeys s \<and> chunkCount (finish s1) = chunkCount s"
proof -
  let ?keys = "if cacheKeys s \<noteq> [] then [ImageKeysEvent (cacheKeys s) (length (cacheKeys s))]
               else []"
  have "events (finish s1) =
          events s @ (emitted @ ?keys)
          @ [CompletionEvent True (chunkCount s) (length (responseText (finish s1)))
               (length (cacheKeys s))]"
    using assms(1,3,4) by (simp add: finish_def)
  moreover have "list_all is_end_event (emitted @ ?keys)"
    using assms(2) by (simp add: is_end_event_def)
  moreover have "cacheKeys (finish s1) = cacheKeys s \<and> chunkCount (finish s1) = chunkCount s"
    using assms(3,4) by (simp add: finish_def)
  ultimately show ?thesis by blast
qed

lemma on_end_resolves:
  assumes "phase (on_end rt s) = Resolved" and "phase s \<noteq> Resolved"
  shows "\<exists>emitted.
           events (on_end rt s) =
             events s @ emitted
             @ [CompletionEvent True (chunkCount s) (length (responseText (on_end rt s)))
                  (length (cacheKeys s))]
         \<and> list_all is_end_event emitted
         \<and> cacheKeys (on_end rt s) = cacheKeys s \<and> chunkCount (on_end rt s) = chunkCount s"
proof (cases "trim (buffer s) = []")
  case True
  have "on_end rt s = finish s" using True by (simp add: on_end_def)
  then show ?thesis using finish_after [of s s "[]"] by simp
next
  case False
  obtain emitted where e: "events (end_pass rt s) = events s @ emitted"
    "list_all is_end_event emitted"
    using end_pass_fields [of rt s] by blast
  have f: "cacheKeys (end_pass rt s) = cacheKeys s" "chunkCount (end_pass rt s) = chunkCount s"
    "phase (end_pass rt s) = phase s"
    using end_pass_fields [of rt s] by simp_all
  have "on_end rt s = finish (end_pass rt s)"
  proof (cases "tryParseCompleteJSON rt (buffer (end_pass rt s))")
    case (Inl err)
    then have "phase (on_end rt s) = Rejected" using False by (simp add: on_end_def Let_def)
    then show ?thesis using assms(1) by simp
  next
    case (Inr finalData)
    show ?thesis
    proof (cases "truthy rt finalData")
      case True
      then have "\<exists>t h todo. phase (on_end rt s) = Finalizing t h todo"
        using False Inr by (simp add: on_end_def Let_def)
      then show ?thesis using assms(1) by auto
    next
      case nt: False
      then show ?thesis using False Inr by (simp add: on_end_def Let_def)
    qed
  qed
  then show ?thesis using finish_after [OF e f(1,2)] by simp
qed

lemma on_resumed_resolves:
  assumes "phase (on_resumed s) = Resolved" and "phase s \<noteq> Resolved"
  shows "\<exists>emitted.
           events (on_resumed s) =
             events s @ emitted
             @ [CompletionEvent True (chunkCount s) (length (responseText (on_resumed s)))
                  (length (cacheKeys s))]
         \<and> list_all is_end_event emitted
         \<and> cacheKeys (on_resumed s) = cacheKeys s \<and> chunkCount (on_resumed s) = chunkCount s"
proof (cases "phase s")
  case (Finalizing t handled todo)
  show ?thesis
  proof (cases todo)
    case Nil
    let ?c = "CompleteEvent \<lparr>complete_text = t, complete_images = handled\<rparr> (chunkCount s)"
    let ?s1 = "s\<lparr>events := events s @ [?c]\<rparr>"
    have r: "on_resumed s = finish ?s1" using Finalizing Nil by (simp add: on_resumed_def)
    have "events ?s1 = events s @ [?c]" "list_all is_end_event [?c]"
      "cacheKeys ?s1 = cacheKeys s" "chunkCount ?s1 = chunkCount s"
      by (simp_all add: is_end_event_def)
    then show ?thesis unfolding r by (rule finish_after)
  next
    case (Cons a list)
    then have "on_resumed s = s" using Finalizing by (simp add: on_resumed_def)
    then show ?thesis using assms by simp
  qed
qed (use assms in \<open>simp_all add: on_resumed_def\<close>)

lemma phase_on_settled [simp]: "phase (on_settled i saved s) = phase s"
  by (simp add: on_settled_def split: task.splits sum.splits)

lemma phase_on_then [simp]: "phase (on_then i s) = phase s"
  by (simp add: on_then_def split: task.splits)

lemma phase_on_awaited: "phase (on_awaited saved s) \<noteq> Resolved \<or> phase s = Resolved"
  by (auto simp: on_awaited_def split: phase.splits list.splits sum.splits)

lemma step_resolves:
  assumes "phase (step rt s a) = Resolved" and "phase s \<noteq> Resolved"
  shows "\<exists>emitted.
           events (step rt s a) =
             events s @ emitted
             @ [CompletionEvent True (chunkCount s) (length (responseText (step rt s a)))
                  (length (cacheKeys s))]
         \<and> list_all is_end_event emitted
         \<and> cacheKeys (step rt s a) = cacheKeys s \<and> chunkCount (step rt s a) = chunkCount s"
proof (cases a)
  case (Data chunk)
  then show ?thesis using assms by (simp split: if_splits)
next
  case StreamEnd
  then have "step rt s a = on_end rt s" using assms by (simp split: if_splits)
  then show ?thesis using on_end_resolves [of rt s] assms by simp
next
  case StreamError
  then show ?thesis using assms by (simp split: if_splits)
next
  case (Settled i saved)
  then show ?thesis using assms by simp
next
  case (Then i)
  then show ?thesis using assms by simp
next
  case (Awaited saved)
  then show ?thesis using assms phase_on_awaited [of saved s] by simp
next
  case Resumed
  then show ?thesis using on_resumed_resolves [of s] assms by simp
qed

text \<open>A session that is not resolved has emitted no completion event.\<close>

lemma no_completion_end_pass:
  "\<not> list_ex is_completion (events s) \<Longrightarrow> \<not> list_ex is_completion (events (end_pass rt s))"
  by (simp add: end_pass_def Let_def is_completion_def)

lemma no_completion_step:
  assumes "\<not> list_ex is_completion (events s)" and "phase (step rt s a) \<noteq> Resolved"
  shows "\<not> list_ex is_completion (events (step rt s a))"
proof (cases a)
  case (Data chunk)
  then show ?thesis using assms(1) by (simp add: on_data_def Let_def is_completion_def)
next
  case StreamEnd
  show ?thesis
  proof (cases "phase s = Streaming")
    case True
    have n1: "\<not> list_ex is_completion (events (end_pass rt s))"
      using assms(1) by (rule no_completion_end_pass)
    have nf: "on_end rt s \<noteq> finish s'" for s'
      using assms(2) StreamEnd True by (auto simp: finish_def)
    have "events (on_end rt s) = events (end_pass rt s)"
      using nf [of s] nf [of "end_pass rt s"]
      by (auto simp: on_end_def Let_def split: sum.splits if_splits)
    then show ?thesis using n1 StreamEnd True by simp
  next
    case False
    then show ?thesis using assms(1) StreamEnd by simp
  qed
next
  case StreamError
  then show ?thesis using assms(1) by simp
next
  case (Settled i saved)
  then show ?thesis
    using assms(1) by (simp add: on_settled_def is_completion_def split: task.splits sum.splits)
next
  case (Then i)
  then show ?thesis
    using assms(1) by (simp add: on_then_def is_completion_def split: task.splits)
next
  case (Awaited saved)
  then show ?thesis
    using assms(1)
    by (auto simp: on_awaited_def split: phase.splits list.splits sum.splits)
next
  case Resumed
  show ?thesis
  proof (cases "on_resumed s = s")
    case True
    then show ?thesis using assms(1) Resumed by simp
  next
    case False
    then have "phase (on_resumed s) = Resolved"
      by (auto simp: on_resumed_def finish_def split: phase.splits list.splits)
    then show ?thesis using assms(2) Resumed by simp
  qed
qed

text \<open>What follows the completion event.\<close>

lemma resolved_step:
  assumes "phase s = Resolved"
  shows "phase (step rt s a) = Resolved
       \<and> chunkCount (step rt s a) = chunkCount s
       \<and> responseText (step rt s a) = responseText s
       \<and> (\<exists>after. events (step rt s a) = events s @ after \<and> list_all is_report after)
       \<and> prefix (cacheKeys s) (cacheKeys (step rt s a))
       \<and> length (cacheKeys (step rt s a)) + due s = length (cacheKeys s) + due (step rt s a)"
proof (cases a)
  case (Settled i saved)
  show ?thesis
  proof (cases "i < length (tasks s)")
    case True
    show ?thesis
    proof (cases "tasks s ! i")
      case (Started imageData)
      have st: "stored (tasks s ! i) = 0" using Started by (simp add: stored_def)
      show ?thesis
      proof (cases "handleImageData saved imageData")
        case (Inl e)
        then have r: "step rt s a = s\<lparr>events := events s @ [ErrorEvent e],
                                       tasks := (tasks s)[i := Reported]\<rparr>"
          using Settled True Started by (simp add: on_settled_def)
        have "sum_list (map stored ((tasks s)[i := Reported])) = sum_list (map stored (tasks s))"
          using stored_update [OF True, of Reported] st by (simp add: stored_def)
        then show ?thesis
          unfolding r using assms by (simp add: due_def is_report_def is_image_def)
      next
        case (Inr key)
        then have r: "step rt s a = s\<lparr>cacheKeys := cacheKeys s @ [key],
                                       tasks := (tasks s)[i := Stored key]\<rparr>"
          using Settled True Started by (simp add: on_settled_def)
        have "sum_list (map stored ((tasks s)[i := Stored key]))
              = sum_list (map stored (tasks s)) + 1"
          using stored_update [OF True, of "Stored key"] st by (simp add: stored_def)
        then show ?thesis
          unfolding r using assms by (simp add: due_def)
      qed
    next
      case (Stored key)
      then have "step rt s a = s" using Settled True by (simp add: on_settled_def)
      then show ?thesis using assms by simp
    next
      case Reported
      then have "step rt s a = s" using Settled True by (simp add: on_settled_def)
      then show ?thesis using assms by simp
    qed
  next
    case False
    then have "step rt s a = s" using Settled by (simp add: on_settled_def)
    then show ?thesis using assms by simp
  qed
next
  case (Then i)
  show ?thesis
  proof (cases "i < length (tasks s)")
    case True
    show ?thesis
    proof (cases "tasks s ! i")
      case (Stored key)
      then have r: "step rt s a = s\<lparr>events := events s @ [ImageEvent key],
                                     tasks := (tasks s)[i := Reported]\<rparr>"
        using Then True by (simp add: on_then_def)
      have "sum_list (map stored ((tasks s)[i := Reported])) + 1
            = sum_list (map stored (tasks s))"
        using stored_update [OF True, of Reported] Stored by (simp add: stored_def)
      then show ?thesis
        unfolding r using assms by (simp add: due_def is_report_def is_image_def)
    next
      case (Started imageData)
      then have "step rt s a = s" using Then True by (simp add: on_then_def)
      then show ?thesis using assms by simp
    next
      case Reported
      then have "step rt s a = s" using Then True by (simp add: on_then_def)
      then show ?thesis using assms by simp
    qed
  next
    case False
    then have "step rt s a = s" using Then by (simp add: on_then_def)
    then show ?thesis using assms by simp
  qed
next
  case (Awaited saved)
  then have "step rt s a = s" using assms by (simp add: on_awaited_def)
  then show ?thesis using assms by simp
next
  case Resumed
  then have "step rt s a = s" using assms by (simp add: on_resumed_def)
  then show ?thesis using assms by simp
qed (use assms in simp_all)

lemma resolved_foldl:
  assumes "phase s = Resolved"
  shows "phase (foldl (step rt) s post) = Resolved
       \<and> chunkCount (foldl (step rt) s post) = chunkCount s
       \<and> responseText (foldl (step rt) s post) = responseText s
       \<and> (\<exists>after. events (foldl (step rt) s post) = events s @ after \<and> list_all is_report after)
       \<and> prefix (cacheKeys s) (cacheKeys (foldl (step rt) s post))
       \<and> length (cacheKeys (foldl (step rt) s post)) + due s
           = length (cacheKeys s) + due (foldl (step rt) s post)"
proof (induction post rule: rev_induct)
  case Nil
  then show ?case using assms by simp
next
  case (snoc a post)
  let ?m = "foldl (step rt) s post"
  have m: "phase ?m = Resolved" using snoc by simp
  obtain after where a1: "events ?m = events s @ after" "list_all is_report after"
    using snoc by blast
  obtain after' where a2: "events (step rt ?m a) = events ?m @ after'" "list_all is_report after'"
    using resolved_step [OF m, of rt a] by blast
  have e: "events (step rt ?m a) = events s @ (after @ after')"
    "list_all is_report (after @ after')"
    using a1 a2 by simp_all
  have p: "prefix (cacheKeys s) (cacheKeys (step rt ?m a))"
    using snoc resolved_step [OF m, of rt a] by (meson prefix_order.trans)
  have l: "length (cacheKeys (step rt ?m a)) + due s = length (cacheKeys s) + due (step rt ?m a)"
    using snoc resolved_step [OF m, of rt a] by linarith
  show ?case
    using resolved_step [OF m, of rt a] snoc e p l
    by (simp only: foldl_append foldl.simps) metis
qed

lemma first_resolution:
  assumes "phase (foldl (step rt) s actions) = Resolved" and "phase s \<noteq> Resolved"
  shows "\<exists>pre a post. actions = pre @ a # post
           \<and> phase (foldl (step rt) s pre) \<noteq> Resolved
           \<and> phase (foldl (step rt) s (pre @ [a])) = Resolved"
  using assms(1)
proof (induction actions rule: rev_induct)
  case Nil
  then show ?case using assms(2) by simp
next
  case (snoc x xs)
  show ?case
  proof (cases "phase (foldl (step rt) s xs) = Resolved")
    case True
    then obtain pre a post where "xs = pre @ a # post"
      "phase (foldl (step rt) s pre) \<noteq> Resolved"
      "phase (foldl (step rt) s (pre @ [a])) = Resolved"
      using snoc.IH by blast
    then have "xs @ [x] = pre @ a # (post @ [x])
           \<and> phase (foldl (step rt) s pre) \<noteq> Resolved
           \<and> phase (foldl (step rt) s (pre @ [a])) = Resolved"
      by simp
    then show ?thesis by blast
  next
    case False
    then have "xs @ [x] = xs @ x # []
           \<and> phase (foldl (step rt) s xs) \<noteq> Resolved
           \<and> phase (foldl (step rt) s (xs @ [x])) = Resolved"
      using snoc.prems by simp
    then show ?thesis by blast
  qed
qed

lemma unresolved_no_completion:
  "phase (foldl (step rt) init actions) \<noteq> Resolved \<Longrightarrow>
   \<not> list_ex is_completion (events (foldl (step rt) init actions))"
proof (induction actions rule: rev_induct)
  case Nil
  then show ?case by (simp add: init_def)
next
  case (snoc x xs)
  have "phase (foldl (step rt) init xs) \<noteq> Resolved"
    using snoc.prems resolved_step [of "foldl (step rt) init xs" rt x] by auto
  then have "\<not> list_ex is_completion (events (foldl (step rt) init xs))" by (rule snoc.IH)
  then show ?case using snoc.prems no_completion_step by simp
qed

text \<open>
  Claim C4, as the code has it. Whatever chunks arrive and whenever the writes
  settle: a session emits no \<^verbatim>\<open>completion\<close> event before it resolves, and exactly
  one in the callback that resolves it (the \<^verbatim>\<open>end\<close> handler, at once or when
  processCompleteResponse has returned), as the last event of that callback. No
  event of the \<^verbatim>\<open>data\<close> and \<^verbatim>\<open>end\<close> handlers follows it; what can follow are the
  \<^verbatim>\<open>image\<close> and \<^verbatim>\<open>error\<close> events of calls of handleImageData that
  processStreamBuffer started and nobody waited for. Its chunk count and text
  length are those of the session then and ever after. Its image count is the
  number of keys in \<^verbatim>\<open>cacheKeys\<close> when the callback runs: it is at least the number
  of \<^verbatim>\<open>image\<close> events delivered before; the keys cached later are appended to
  \<^verbatim>\<open>cacheKeys\<close> and are not counted, and there is one of them for each \<^verbatim>\<open>image\<close>
  event that has become delivered or due since.
\<close>

theorem completion_event_placed:
  "case phase (run rt actions) of
     Resolved \<Rightarrow>
       (\<exists>pre a post emitted after.
          actions = pre @ a # post
          \<and> phase (run rt pre) \<noteq> Resolved
          \<and> \<not> list_ex is_completion (events (run rt pre))
          \<and> events (run rt (pre @ [a])) =
              events (run rt pre) @ emitted
              @ [CompletionEvent True (chunkCount (run rt pre))
                   (length (responseText (run rt (pre @ [a]))))
                   (length (cacheKeys (run rt pre)))]
          \<and> list_all is_end_event emitted
          \<and> cacheKeys (run rt (pre @ [a])) = cacheKeys (run rt pre)
          \<and> length (filter is_image (events (run rt pre))) \<le> length (cacheKeys (run rt pre))
          \<and> events (run rt actions) = events (run rt (pre @ [a])) @ after
          \<and> list_all is_report after
          \<and> chunkCount (run rt actions) = chunkCount (run rt pre)
          \<and> responseText (run rt actions) = responseText (run rt (pre @ [a]))
          \<and> prefix (cacheKeys (run rt pre)) (cacheKeys (run rt actions))
          \<and> length (cacheKeys (run rt actions)) + due (run rt (pre @ [a]))
              = length (cacheKeys (run rt pre)) + due (run rt actions))
   | _ \<Rightarrow> \<not> list_ex is_completion (events (run rt actions))"
proof (cases "phase (run rt actions) = Resolved")
  case True
  have "phase init \<noteq> Resolved" by (simp add: init_def)
  then obtain pre a post where s: "actions = pre @ a # post"
    "phase (run rt pre) \<noteq> Resolved" "phase (run rt (pre @ [a])) = Resolved"
    using first_resolution [of rt init actions] True unfolding run_def by blast
  have st: "run rt (pre @ [a]) = step rt (run rt pre) a" by (simp add: run_def)
  have fin: "run rt actions = foldl (step rt) (run rt (pre @ [a])) post"
    by (simp add: run_def s(1))
  have n: "\<not> list_ex is_completion (events (run rt pre))"
    using s(2) unresolved_no_completion unfolding run_def by blast
  obtain emitted where e:
    "events (run rt (pre @ [a])) =
       events (run rt pre) @ emitted
       @ [CompletionEvent True (chunkCount (run rt pre))
            (length (responseText (run rt (pre @ [a])))) (length (cacheKeys (run rt pre)))]"
    "list_all is_end_event emitted"
    "cacheKeys (run rt (pre @ [a])) = cacheKeys (run rt pre)"
    "chunkCount (run rt (pre @ [a])) = chunkCount (run rt pre)"
    using step_resolves [of rt "run rt pre" a] s(2,3) unfolding st by blast
  have k: "length (filter is_image (events (run rt pre))) \<le> length (cacheKeys (run rt pre))"
    using keys_cover_run [of rt pre] by (simp add: keys_cover_def due_def)
  obtain after where f:
    "events (run rt actions) = events (run rt (pre @ [a])) @ after" "list_all is_report after"
    using resolved_foldl [OF s(3), of rt post] unfolding fin by blast
  have g: "chunkCount (run rt actions) = chunkCount (run rt pre)"
    "responseText (run rt actions) = responseText (run rt (pre @ [a]))"
    "prefix (cacheKeys (run rt pre)) (cacheKeys (run rt actions))"
    "length (cacheKeys (run rt actions)) + due (run rt (pre @ [a]))
       = length (cacheKeys (run rt pre)) + due (run rt actions)"
    using resolved_foldl [OF s(3), of rt post] e(3,4) unfolding fin by simp_all
  have "\<exists>pre a post emitted after.
          actions = pre @ a # post
          \<and> phase (run rt pre) \<noteq> Resolved
          \<and> \<not> list_ex is_completion (events (run rt pre))
          \<and> events (run rt (pre @ [a])) =
              events (run rt pre) @ emitted
              @ [CompletionEvent True (chunkCount (run rt pre))
                   (length (responseText (run rt (pre @ [a]))))
                   (length (cacheKeys (run rt pre)))]
          \<and> list_all is_end_event emitted
          \<and> cacheKeys (run rt (pre @ [a])) = cacheKeys (run rt pre)
          \<and> length (filter is_image (events (run rt pre))) \<le> length (cacheKeys (run rt pre))
          \<and> events (run rt actions) = events (run rt (pre @ [a])) @ after
          \<and> list_all is_report after
          \<and> chunkCount (run rt actions) = chunkCount (run rt pre)
          \<and> responseText (run rt actions) = responseText (run rt (pre @ [a]))
          \<and> prefix (cacheKeys (run rt pre)) (cacheKeys (run rt actions))
          \<and> length (cacheKeys (run rt actions)) + due (run rt (pre @ [a]))
              = length (cacheKeys (run rt pre)) + due (run rt actions)"
    using s(1,2) n e(1,2,3) k f g by blast
  then show ?thesis using True by simp
next
  case False
  then have "\<not> list_ex is_completion (events (run rt actions))"
    using unresolved_no_completion unfolding run_def by blast
  then show ?thesis using False by (cases "phase (run rt actions)") simp_all
qed

text \<open>
  The claim as the specification states it fails for a chunk with one image whose
  write settles after the stream has ended: when the \<^verbatim>\<open>end\<close> handler runs, the
  call of handleImageData is still pending, the buffer is empty, and the handler
  emits \<^verbatim>\<open>completion\<close> with \<^verbatim>\<open>imageCount\<close> 0 at once; the \<^verbatim>\<open>image\<close> event follows
  it.
\<close>

theorem image_after_completion_counterexample:
  \<open>events (run node [Data (utf8 image_input), StreamEnd, Settled 0 (Inr ''k1''), Then 0])
     = [CompletionEvent True 1 0 0, ImageEvent ''k1'']
   \<and> tasks (run node [Data (utf8 image_input), StreamEnd])
     = [Started \<lparr>data = JStr ''QQ=='', mimeType = JStr ''image/png''\<rparr>]
   \<and> events (run node [Data (utf8 image_input), StreamEnd]) = [CompletionEvent True 1 0 0]
   \<and> cacheKeys (run node [Data (utf8 image_input), StreamEnd, Settled 0 (Inr ''k1''), Then 0]) = [''k1'']\<close>
  by code_simp

section \<open>A block reason\<close>

text \<open>
  Claim C3 on the chunk \<^verbatim>\<open>{"promptFeedback":{"blockReason":"SAFETY"}}\<close>.
  extractContentFromJSON throws the error with the reason, inside the \<^verbatim>\<open>try\<close> block
  of processStreamBuffer, whose \<^verbatim>\<open>catch\<close> logs it as a parse failure and returns
  the buffer unchanged. No \<^verbatim>\<open>error\<close> event is emitted; the \<^verbatim>\<open>end\<close> handler then
  parses the same buffer, walks it, emits \<^verbatim>\<open>complete\<close> and \<^verbatim>\<open>completion\<close> with
  \<^verbatim>\<open>success: true\<close>, and the promise resolves.
\<close>

theorem block_reason_is_swallowed:
  \<open>JSON_read blocked_input
     = Some (JObj [(''promptFeedback'', JObj [(''blockReason'', JStr ''SAFETY'')])])
   \<and> Buffer_toString node (utf8 blocked_input) = blocked_input
   \<and> extractContentFromJSON node
         (JObj [(''promptFeedback'', JObj [(''blockReason'', JStr ''SAFETY'')])])
       = Inl (Error ''Request blocked: SAFETY'')
   \<and> processStreamBuffer node blocked_input = unchanged blocked_input True
   \<and> events (run node [Data (utf8 blocked_input), StreamEnd, Resumed])
       = [CompleteEvent \<lparr>complete_text = [], complete_images = []\<rparr> 1,
          CompletionEvent True 1 0 0]
   \<and> phase (run node [Data (utf8 blocked_input), StreamEnd, Resumed]) = Resolved\<close>
  by code_simp

section \<open>The walk of the end handler\<close>

text \<open>
  Claim C6 on a chunk that holds two objects, the second one shaped with a text
  and an image. The \<^verbatim>\<open>data\<close> callback extracts the first object. The \<^verbatim>\<open>end\<close>
  handler extracts the second with the shaped interpretation (the \<^verbatim>\<open>text\<close> event,
  and a call of handleImageData), does not assign the buffer, and so parses the
  same object again and walks it with extractRecursive: the \<^verbatim>\<open>complete\<close> event
  repeats the text, and the one image is saved under two keys.
\<close>

theorem end_handler_walks_extracted_object:
  \<open>Buffer_toString node (utf8 twice_input) = twice_input
   \<and> objects (run node [Data (utf8 twice_input), StreamEnd])
     = [JObj [(''a'', JStr ''b'')],
        shaped_json [[TextPart ''Hi'', InlineDataPart ''QQ=='' ''image/png'']]]
   \<and> tryParseCompleteJSON node (buffer (run node [Data (utf8 twice_input)]))
     = Inr (shaped_json [[TextPart ''Hi'', InlineDataPart ''QQ=='' ''image/png'']])
   \<and> events (run node [Data (utf8 twice_input), StreamEnd, Settled 0 (Inr ''k1''), Then 0,
                          Awaited (Inr ''k2''), Resumed])
     = [TextEvent ''Hi'' ''Hi'' 1 True,
        ImageEvent ''k1'',
        CompleteEvent
          \<lparr>complete_text = ''Hi'',
           complete_images =
             [(\<lparr>data = JStr ''QQ=='', mimeType = JStr ''image/png''\<rparr>, Some ''k2'')]\<rparr> 1,
        ImageKeysEvent [''k1'', ''k2''] 2,
        CompletionEvent True 1 2 2]\<close>
  by code_simp

end
